theory Spec2Isabelle
  imports Main "HOL-Library.Multiset"
begin

section \<open>The crossword constraint solver of \<^verbatim>\<open>crossword/generate.py\<close>\<close>

subsection \<open>Data model\<close>

text \<open>
  Modelled from the spec: the class \<^verbatim>\<open>Variable\<close> is defined in the module
  \<^verbatim>\<open>crossword\<close>, which \<^verbatim>\<open>generate.py\<close> imports. It is a crossword slot: start row
  \<^verbatim>\<open>i\<close>, start column \<^verbatim>\<open>j\<close>, a direction and a length. Two variables are equal iff
  all four attributes are equal.
\<close>

datatype direction = ACROSS | DOWN

record variable =
  var_i :: nat
  var_j :: nat
  var_direction :: direction
  var_length :: nat

text \<open>The exceptions the solver's own statements can raise.\<close>

datatype error = KeyError | IndexError | TypeError

text \<open>
  Modelled from the spec: the class \<^verbatim>\<open>Crossword\<close> is defined in the same module. Of
  the grid model the solver reads the variables (a Python set, here in its iteration
  order), the dictionary words, and the overlap lookup, which gives for an ordered pair
  of variables the pair of indices at which their words must agree, or nothing.
\<close>

record crossword =
  variables :: "variable list"
  words :: "string list"
  overlaps :: "variable \<times> variable \<Rightarrow> (nat \<times> nat) option"

text \<open>
  Modelled from the spec: \<^verbatim>\<open>Crossword.neighbors\<close> is defined in the module
  \<^verbatim>\<open>crossword\<close>, which \<^verbatim>\<open>generate.py\<close> imports. The specification describes it as
  returning all variables with a recorded overlap to the given one; an overlap is
  recorded for pairs of distinct variables only.
\<close>

definition neighbors :: "crossword \<Rightarrow> variable \<Rightarrow> variable list" where
  "neighbors cw var =
     filter (\<lambda>v. v \<noteq> var \<and> overlaps cw (var, v) \<noteq> None) (variables cw)"

text \<open>
  Modelled from the spec: the invariants of the grid model, which the constructor of
  \<^verbatim>\<open>Crossword\<close> establishes. The variables are pairwise different, an overlap is
  recorded for distinct variables only, in both directions with the two indices
  swapped, and each index lies inside its slot.
\<close>

definition wf_crossword :: "crossword \<Rightarrow> bool" where
  "wf_crossword cw \<longleftrightarrow>
     distinct (variables cw) \<and>
     (\<forall>x \<in> set (variables cw). \<forall>y \<in> set (variables cw).
        case overlaps cw (x, y) of
          None \<Rightarrow> True
        | Some (ix, iy) \<Rightarrow>
            x \<noteq> y \<and> overlaps cw (y, x) = Some (iy, ix) \<and>
            ix < var_length x \<and> iy < var_length y)"

text \<open>
  \<^verbatim>\<open>self.domains\<close> is a dict from each variable of the crossword to its set of candidate
  words. Its keys are fixed by \<^verbatim>\<open>__init__\<close> to the crossword's variables and no method
  adds or deletes a key, so the model keeps the values as a function and raises
  \<^verbatim>\<open>KeyError\<close> for a lookup outside \<^term>\<open>variables cw\<close>. A set of words is a list in
  its iteration order; \<^verbatim>\<open>set.remove\<close> deletes the word from it.
\<close>

type_synonym domains = "variable \<Rightarrow> string list"

text \<open>\<^verbatim>\<open>__init__\<close>: every variable starts with a copy of the whole dictionary.\<close>

definition init_domains :: "crossword \<Rightarrow> domains" where
  "init_domains cw = (\<lambda>var. if var \<in> set (variables cw) then words cw else [])"

text \<open>
  An assignment is a dict from variables to words; Python dicts keep insertion order,
  so it is an association list with distinct keys.
\<close>

type_synonym assignment = "(variable \<times> string) list"

section \<open>The solver\<close>

subsection \<open>Node consistency\<close>

definition enforce_var :: "variable \<Rightarrow> string list \<Rightarrow> string list" where
  "enforce_var var ws =
     (let removelist = filter (\<lambda>word. var_length var \<noteq> length word) ws
      in fold removeAll removelist ws)"

text \<open>The loop over the variables; each domain loses the words of the wrong length.\<close>

fun enforce_loop :: "variable list \<Rightarrow> domains \<Rightarrow> domains" where
  "enforce_loop [] doms = doms"
| "enforce_loop (var # vars) doms =
     enforce_loop vars (doms(var := enforce_var var (doms var)))"

definition enforce_node_consistency :: "crossword \<Rightarrow> domains \<Rightarrow> domains" where
  "enforce_node_consistency cw doms = enforce_loop (variables cw) doms"

subsection \<open>Arc consistency\<close>

text \<open>
  The inner loop of \<^verbatim>\<open>revise\<close>: scan the words of y's domain for one that agrees
  with \<^verbatim>\<open>xword\<close> at the overlap, stopping at the first. Indexing a word at or beyond
  its length raises \<^verbatim>\<open>IndexError\<close>; \<^verbatim>\<open>xword[overlap[0]]\<close> is evaluated first.
\<close>

fun has_support :: "nat \<Rightarrow> nat \<Rightarrow> string \<Rightarrow> string list \<Rightarrow> error + bool" where
  "has_support ox oy xword [] = Inr False"
| "has_support ox oy xword (yword # ywords) =
     (if length xword \<le> ox then Inl IndexError
      else if length yword \<le> oy then Inl IndexError
      else if xword ! ox = yword ! oy then Inr True
      else has_support ox oy xword ywords)"

text \<open>The outer loop of \<^verbatim>\<open>revise\<close>, which collects \<^verbatim>\<open>removelist\<close>.\<close>

fun revise_scan ::
  "crossword \<Rightarrow> domains \<Rightarrow> nat \<times> nat \<Rightarrow> variable \<Rightarrow> string list \<Rightarrow> error + string list"
where
  "revise_scan cw doms overlap y [] = Inr []"
| "revise_scan cw doms overlap y (xword # xwords) =
     (if y \<notin> set (variables cw) then Inl KeyError
      else case has_support (fst overlap) (snd overlap) xword (doms y) of
        Inl e \<Rightarrow> Inl e
      | Inr ac \<Rightarrow>
          (case revise_scan cw doms overlap y xwords of
             Inl e \<Rightarrow> Inl e
           | Inr removelist \<Rightarrow> Inr (if ac then removelist else xword # removelist)))"

text \<open>
  \<^verbatim>\<open>revise\<close>: without a recorded overlap nothing happens; otherwise the words of
  \<^verbatim>\<open>removelist\<close> are removed from x's domain, and a revision is reported iff the list
  is not empty.
\<close>

definition revise ::
  "crossword \<Rightarrow> domains \<Rightarrow> variable \<Rightarrow> variable \<Rightarrow> error + (bool \<times> domains)"
where
  "revise cw doms x y =
     (case overlaps cw (x, y) of
        None \<Rightarrow> Inr (False, doms)
      | Some overlap \<Rightarrow>
          if x \<notin> set (variables cw) then Inl KeyError
          else (case revise_scan cw doms overlap y (doms x) of
                  Inl e \<Rightarrow> Inl e
                | Inr removelist \<Rightarrow>
                    Inr (removelist \<noteq> [],
                         doms(x := fold removeAll removelist (doms x)))))"

text \<open>The initial queue of \<^verbatim>\<open>ac3\<close>: every arc from a variable to a neighbor.\<close>

definition all_arcs :: "crossword \<Rightarrow> (variable \<times> variable) list" where
  "all_arcs cw =
     concat (map (\<lambda>var. map (\<lambda>neighbor. (var, neighbor))
                          (filter (\<lambda>neighbor. var \<noteq> neighbor) (neighbors cw var)))
                 (variables cw))"

text \<open>How many words all domains hold together; every revision lowers it.\<close>

definition domain_total :: "crossword \<Rightarrow> domains \<Rightarrow> nat" where
  "domain_total cw doms = (\<Sum>v \<in> set (variables cw). length (doms v))"

lemma fold_removeAll_filter:
  "fold removeAll rs ws = filter (\<lambda>w. w \<notin> set rs) ws"
proof (induction rs arbitrary: ws)
  case Nil
  show ?case by simp
next
  case (Cons r rs)
  have "fold removeAll (r # rs) ws = filter (\<lambda>w. w \<notin> set rs) (removeAll r ws)"
    using Cons.IH by simp
  also have "\<dots> = filter (\<lambda>w. w \<notin> set (r # rs)) ws"
    by (induction ws) auto
  finally show ?case .
qed

lemma revise_scan_subset:
  "revise_scan cw doms ov y xs = Inr rl \<Longrightarrow> set rl \<subseteq> set xs"
  by (induction xs arbitrary: rl) (auto split: if_splits sum.splits)

lemma revise_domains:
  assumes "revise cw doms x y = Inr (b, doms')"
  shows "\<exists>rl. doms' = doms(x := filter (\<lambda>w. w \<notin> set rl) (doms x)) \<and> set rl \<subseteq> set (doms x)
           \<and> (b \<longleftrightarrow> rl \<noteq> []) \<and> (rl \<noteq> [] \<longrightarrow> x \<in> set (variables cw))"
proof (cases "overlaps cw (x, y)")
  case None
  with assms have "b = False" "doms' = doms" by (simp_all add: revise_def)
  then show ?thesis by (intro exI[of _ "[]"]) simp
next
  case (Some ov)
  with assms obtain rl where
    rl: "revise_scan cw doms ov y (doms x) = Inr rl" "x \<in> set (variables cw)"
      "b = (rl \<noteq> [])" "doms' = doms(x := fold removeAll rl (doms x))"
    by (auto simp: revise_def split: if_splits sum.splits)
  then show ?thesis
    using revise_scan_subset[OF rl(1)] by (intro exI[of _ rl]) (simp add: fold_removeAll_filter)
qed

lemma revise_length_le:
  assumes "revise cw doms x y = Inr (b, doms')"
  shows "length (doms' v) \<le> length (doms v)"
  using revise_domains[OF assms] by auto

lemma revise_unrevised:
  assumes "revise cw doms x y = Inr (False, doms')"
  shows "doms' = doms"
  using revise_domains[OF assms] by auto

lemma revise_total_less:
  assumes "revise cw doms x y = Inr (True, doms')"
  shows "domain_total cw doms' < domain_total cw doms"
proof -
  from revise_domains[OF assms] obtain rl where
    rl: "doms' = doms(x := filter (\<lambda>w. w \<notin> set rl) (doms x))" "set rl \<subseteq> set (doms x)"
      "rl \<noteq> []" "x \<in> set (variables cw)"
    by auto
  from rl(2,3) obtain r where "r \<in> set (doms x)" "r \<in> set rl"
    by (cases rl) auto
  then have "length (filter (\<lambda>w. w \<notin> set rl) (doms x)) < length (doms x)"
    by (intro length_filter_less[of r]) auto
  then have "length (doms' x) < length (doms x)"
    using rl(1) by simp
  moreover have "\<forall>v \<in> set (variables cw). length (doms' v) \<le> length (doms v)"
    using revise_length_le[OF assms] by blast
  ultimately show ?thesis
    unfolding domain_total_def using rl(4)
    by (intro sum_strict_mono_ex1) auto
qed

text \<open>
  The queue loop of \<^verbatim>\<open>ac3\<close>. \<^verbatim>\<open>arcs.pop()\<close> takes the last arc of the list and new
  arcs are appended at its end. Each step either shrinks a domain or shortens the
  queue, which is the termination argument.
\<close>

function ac3_loop ::
  "crossword \<Rightarrow> domains \<Rightarrow> (variable \<times> variable) list \<Rightarrow> error + (bool \<times> domains)"
where
  "ac3_loop cw doms arcs =
     (if arcs = [] then Inr (True, doms)
      else
        (case last arcs of (x, y) \<Rightarrow>
           (case revise cw doms x y of
              Inl e \<Rightarrow> Inl e
            | Inr (revised, doms') \<Rightarrow>
                if revised then
                  (if x \<notin> set (variables cw) then Inl KeyError
                   else if doms' x = [] then Inr (False, doms')
                   else ac3_loop cw doms'
                          (butlast arcs @
                           map (\<lambda>z. (z, x)) (filter (\<lambda>z. z \<noteq> y) (neighbors cw x))))
                else ac3_loop cw doms' (butlast arcs))))"
  by pat_completeness auto

termination
proof (relation "inv_image (less_than <*lex*> less_than)
                   (\<lambda>(cw, doms, arcs). (domain_total cw doms, length arcs))")
  show "wf (inv_image (less_than <*lex*> less_than)
             (\<lambda>(cw, doms, arcs). (domain_total cw doms, length arcs)))"
    by (simp add: wf_lex_prod)
next
  fix cw doms arcs p x y r revised doms'
  assume "revise cw doms x y = Inr r" "(revised, doms') = r" "revised"
  then have "revise cw doms x y = Inr (True, doms')" by auto
  from revise_total_less[OF this]
  show "((cw, doms', butlast arcs @ map (\<lambda>z. (z, x)) (filter (\<lambda>z. z \<noteq> y) (neighbors cw x))),
         (cw, doms, arcs))
        \<in> inv_image (less_than <*lex*> less_than)
            (\<lambda>(cw, doms, arcs). (domain_total cw doms, length arcs))"
    by simp
next
  fix cw doms arcs p x y r revised doms'
  assume "arcs \<noteq> []" "revise cw doms x y = Inr r" "(revised, doms') = r" "\<not> revised"
  then have "revise cw doms x y = Inr (False, doms')" by auto
  from revise_unrevised[OF this] \<open>arcs \<noteq> []\<close>
  show "((cw, doms', butlast arcs), (cw, doms, arcs))
        \<in> inv_image (less_than <*lex*> less_than)
            (\<lambda>(cw, doms, arcs). (domain_total cw doms, length arcs))"
    by simp
qed

declare ac3_loop.simps [simp del]

text \<open>\<^verbatim>\<open>ac3(arcs)\<close>: \<^verbatim>\<open>None\<close> and the empty list both mean all arcs of the problem.\<close>

definition ac3 ::
  "crossword \<Rightarrow> domains \<Rightarrow> (variable \<times> variable) list option \<Rightarrow> error + (bool \<times> domains)"
where
  "ac3 cw doms arcs =
     ac3_loop cw doms
       (case arcs of
          None \<Rightarrow> all_arcs cw
        | Some given \<Rightarrow> if given = [] then all_arcs cw else given)"

subsection \<open>Search heuristics\<close>

text \<open>\<^verbatim>\<open>assignment_complete\<close>: the loop over the keys of \<^verbatim>\<open>self.domains\<close>.\<close>

fun assignment_complete_loop :: "variable list \<Rightarrow> assignment \<Rightarrow> bool" where
  "assignment_complete_loop [] asg = True"
| "assignment_complete_loop (var # vars) asg =
     (if map_of asg var = None then False else assignment_complete_loop vars asg)"

definition assignment_complete :: "crossword \<Rightarrow> assignment \<Rightarrow> bool" where
  "assignment_complete cw asg = assignment_complete_loop (variables cw) asg"

text \<open>
  An entry of \<^verbatim>\<open>minvalues\<close> in \<^verbatim>\<open>select_unassigned_variable\<close> holds a Variable or the
  integer placeholder \<^verbatim>\<open>99999\<close> the list starts with, and a count.
\<close>

datatype candidate = Var_of variable | Int_of nat

text \<open>
  The first loop of \<^verbatim>\<open>select_unassigned_variable\<close>: it keeps in \<^verbatim>\<open>minvalues\<close> the
  unassigned variables with the fewest words seen so far. The list is never empty.
\<close>

fun select_scan ::
  "domains \<Rightarrow> assignment \<Rightarrow> variable list \<Rightarrow> (candidate \<times> nat) list \<Rightarrow> (candidate \<times> nat) list"
where
  "select_scan doms asg [] minvalues = minvalues"
| "select_scan doms asg (var # vars) minvalues =
     (if map_of asg var \<noteq> None then select_scan doms asg vars minvalues
      else
        (let count = length (doms var) in
         if count < snd (hd minvalues) then select_scan doms asg vars [(Var_of var, count)]
         else if count = snd (hd minvalues)
           then select_scan doms asg vars (minvalues @ [(Var_of var, count)])
         else select_scan doms asg vars minvalues))"

text \<open>
  The tie-break loop. \<^verbatim>\<open>minvalues[0]\<close> is the best entry so far; the loop visits the
  variables of the entries in order. Asking the grid model for the neighbors of the
  integer placeholder is not a call on a Variable and fails.
\<close>

fun degree_scan :: "crossword \<Rightarrow> candidate list \<Rightarrow> candidate \<times> nat \<Rightarrow> error + candidate \<times> nat"
where
  "degree_scan cw [] best = Inr best"
| "degree_scan cw (Int_of k # rest) best = Inl TypeError"
| "degree_scan cw (Var_of var # rest) best =
     (let n = length (neighbors cw var) in
      if n > snd best then degree_scan cw rest (Var_of var, n)
      else degree_scan cw rest best)"

text \<open>\<^verbatim>\<open>select_unassigned_variable\<close>: the scan, then the tie-break when several entries are left.\<close>

definition select_unassigned_variable ::
  "crossword \<Rightarrow> domains \<Rightarrow> assignment \<Rightarrow> error + candidate"
where
  "select_unassigned_variable cw doms asg =
     (let minvalues = select_scan doms asg (variables cw) [(Int_of 99999, 99999)] in
      if length minvalues > 1 then
        (case degree_scan cw (map fst minvalues) (fst (hd minvalues), 0) of
           Inl e \<Rightarrow> Inl e
         | Inr best \<Rightarrow> Inr (fst best))
      else Inr (fst (hd minvalues)))"

text \<open>
  \<^verbatim>\<open>order_domain_values\<close>: for each word of the variable's domain the counter is the
  number of neighbors whose domain holds the word. The source guards the count with
  \<^verbatim>\<open>if value not in assignment\<close>; the keys of the assignment are Variables and the value
  is a word, so the guard always holds and the count is made for every word, whether
  a neighbor is assigned or not. \<^verbatim>\<open>sorted\<close> is a stable sort on the counter.
\<close>

definition lcv_counter :: "crossword \<Rightarrow> domains \<Rightarrow> variable \<Rightarrow> string \<Rightarrow> nat" where
  "lcv_counter cw doms var value =
     length (filter (\<lambda>neighbor. value \<in> set (doms neighbor)) (neighbors cw var))"

definition order_domain_values ::
  "crossword \<Rightarrow> domains \<Rightarrow> variable \<Rightarrow> assignment \<Rightarrow> error + string list"
where
  "order_domain_values cw doms var asg =
     (if var \<notin> set (variables cw) then Inl KeyError
      else
        (let reslist = map (\<lambda>value. (value, lcv_counter cw doms var value)) (doms var);
             sortedlist = sort_key snd reslist
         in Inr (map fst sortedlist)))"

subsection \<open>What variable selection returns\<close>

text \<open>
  The least count the scan sees, starting from a count \<open>c\<close>, and the unassigned
  variables whose domain has a given size.
\<close>

fun min_count :: "domains \<Rightarrow> assignment \<Rightarrow> variable list \<Rightarrow> nat \<Rightarrow> nat" where
  "min_count doms asg [] c = c"
| "min_count doms asg (v # vs) c =
     min_count doms asg vs (if map_of asg v = None then min c (length (doms v)) else c)"

definition tied :: "domains \<Rightarrow> assignment \<Rightarrow> variable list \<Rightarrow> nat \<Rightarrow> variable list" where
  "tied doms asg vars c = filter (\<lambda>u. map_of asg u = None \<and> length (doms u) = c) vars"

lemma assignment_complete_iff:
  "assignment_complete cw asg \<longleftrightarrow> (\<forall>v \<in> set (variables cw). map_of asg v \<noteq> None)"
proof -
  have "assignment_complete_loop vs asg \<longleftrightarrow> (\<forall>v \<in> set vs. map_of asg v \<noteq> None)" for vs
    by (induction vs) auto
  then show ?thesis by (simp add: assignment_complete_def)
qed

lemma min_count_le: "min_count doms asg vs c \<le> c"
proof (induction vs arbitrary: c)
  case Nil show ?case by simp
next
  case (Cons v vs)
  show ?case using Cons.IH[of "if map_of asg v = None then min c (length (doms v)) else c"]
    by (auto split: if_splits)
qed

lemma min_count_lower:
  "u \<in> set vs \<Longrightarrow> map_of asg u = None \<Longrightarrow> min_count doms asg vs c \<le> length (doms u)"
proof (induction vs arbitrary: c)
  case Nil then show ?case by simp
next
  case (Cons v vs)
  show ?case
  proof (cases "u = v")
    case True
    with Cons.prems have "min_count doms asg (v # vs) c
        = min_count doms asg vs (min c (length (doms u)))" by simp
    also have "\<dots> \<le> min c (length (doms u))" by (rule min_count_le)
    finally show ?thesis by simp
  next
    case False
    with Cons.prems have "u \<in> set vs" by simp
    from Cons.IH[OF this Cons.prems(2)] show ?thesis by simp
  qed
qed

lemma min_count_attained:
  "min_count doms asg vs c < c \<Longrightarrow>
     \<exists>u \<in> set vs. map_of asg u = None \<and> length (doms u) = min_count doms asg vs c"
proof (induction vs arbitrary: c)
  case Nil then show ?case by simp
next
  case (Cons v vs)
  let ?c1 = "if map_of asg v = None then min c (length (doms v)) else c"
  show ?case
  proof (cases "min_count doms asg vs ?c1 < ?c1")
    case True
    from Cons.IH[OF True] show ?thesis by auto
  next
    case False
    with min_count_le[of doms asg vs ?c1] have eq: "min_count doms asg vs ?c1 = ?c1" by simp
    with Cons.prems have "?c1 < c" by simp
    then have "map_of asg v = None" "length (doms v) = ?c1" by (auto split: if_splits)
    with eq show ?thesis by auto
  qed
qed

lemma tied_Cons:
  "tied doms asg (var # vars) k =
     (if map_of asg var = None \<and> length (doms var) = k then var # tied doms asg vars k
      else tied doms asg vars k)"
  by (simp add: tied_def)

lemma select_scan_result:
  "minvalues \<noteq> [] \<Longrightarrow> \<forall>e \<in> set minvalues. snd e = c \<Longrightarrow>
   select_scan doms asg vars minvalues =
     (if min_count doms asg vars c < c
      then map (\<lambda>u. (Var_of u, min_count doms asg vars c))
             (tied doms asg vars (min_count doms asg vars c))
      else minvalues @ map (\<lambda>u. (Var_of u, c)) (tied doms asg vars c))"
proof (induction vars arbitrary: minvalues c)
  case Nil
  then show ?case by (simp add: tied_def)
next
  case (Cons var vars)
  from Cons.prems have hd: "snd (hd minvalues) = c" by (cases minvalues) auto
  let ?n = "length (doms var)"
  show ?case
  proof (cases "map_of asg var = None")
    case False
    then have s: "select_scan doms asg (var # vars) minvalues = select_scan doms asg vars minvalues"
      and m: "min_count doms asg (var # vars) c = min_count doms asg vars c"
      and t: "\<And>k. tied doms asg (var # vars) k = tied doms asg vars k"
      by (auto simp: tied_Cons)
    show ?thesis unfolding s m t by (rule Cons.IH[OF Cons.prems])
  next
    case un: True
    consider "?n < c" | "?n = c" | "c < ?n" by linarith
    then show ?thesis
    proof cases
      case 1
      let ?m = "min_count doms asg vars ?n"
      have le: "?m \<le> ?n" by (rule min_count_le)
      have s: "select_scan doms asg (var # vars) minvalues
          = select_scan doms asg vars [(Var_of var, ?n)]"
        using un 1 hd by simp
      have m: "min_count doms asg (var # vars) c = ?m"
        using un 1 by (simp add: min_def)
      have ih: "select_scan doms asg vars [(Var_of var, ?n)] = (if ?m < ?n
          then map (\<lambda>u. (Var_of u, ?m)) (tied doms asg vars ?m)
          else [(Var_of var, ?n)] @ map (\<lambda>u. (Var_of u, ?n)) (tied doms asg vars ?n))"
        by (rule Cons.IH) simp_all
      have lt: "?m < c" using le 1 by simp
      show ?thesis
      proof (cases "?m < ?n")
        case True
        then have "tied doms asg (var # vars) ?m = tied doms asg vars ?m"
          by (simp add: tied_Cons)
        with s m ih lt True show ?thesis by simp
      next
        case False
        with le have eq: "?m = ?n" by simp
        then have "tied doms asg (var # vars) ?m = var # tied doms asg vars ?n"
          using un by (simp add: tied_Cons)
        with s m ih lt eq show ?thesis by simp
      qed
    next
      case 2
      have s: "select_scan doms asg (var # vars) minvalues
          = select_scan doms asg vars (minvalues @ [(Var_of var, c)])"
        using un 2 hd by simp
      have m: "min_count doms asg (var # vars) c = min_count doms asg vars c"
        using un 2 by simp
      have ih: "select_scan doms asg vars (minvalues @ [(Var_of var, c)]) =
          (if min_count doms asg vars c < c
           then map (\<lambda>u. (Var_of u, min_count doms asg vars c))
                  (tied doms asg vars (min_count doms asg vars c))
           else (minvalues @ [(Var_of var, c)]) @ map (\<lambda>u. (Var_of u, c)) (tied doms asg vars c))"
        using Cons.prems by (intro Cons.IH) auto
      show ?thesis
      proof (cases "min_count doms asg vars c < c")
        case True
        then have "tied doms asg (var # vars) (min_count doms asg vars c)
            = tied doms asg vars (min_count doms asg vars c)"
          using 2 by (simp add: tied_Cons)
        with s m ih True show ?thesis by simp
      next
        case False
        have "tied doms asg (var # vars) c = var # tied doms asg vars c"
          using un 2 by (simp add: tied_Cons)
        with s m ih False show ?thesis by simp
      qed
    next
      case 3
      have le: "min_count doms asg vars c \<le> c" by (rule min_count_le)
      have s: "select_scan doms asg (var # vars) minvalues = select_scan doms asg vars minvalues"
        using un 3 hd by simp
      have m: "min_count doms asg (var # vars) c = min_count doms asg vars c"
        using un 3 by (simp add: min_def)
      have t: "tied doms asg (var # vars) k = tied doms asg vars k" if "k \<le> c" for k
        using 3 that by (simp add: tied_Cons)
      show ?thesis
        unfolding s m t[OF le] t[OF order_refl] by (rule Cons.IH[OF Cons.prems])
    qed
  qed
qed

lemma degree_scan_vars:
  "\<exists>b. degree_scan cw (map Var_of us) best = Inr b \<and> snd best \<le> snd b \<and>
       (\<forall>u \<in> set us. length (neighbors cw u) \<le> snd b) \<and>
       (b = best \<or> (\<exists>u \<in> set us. b = (Var_of u, length (neighbors cw u))))"
proof (induction us arbitrary: best)
  case Nil
  show ?case by simp
next
  case (Cons u us)
  let ?n = "length (neighbors cw u)"
  show ?case
  proof (cases "snd best < ?n")
    case True
    from Cons.IH[of "(Var_of u, ?n)"] obtain b where
      b: "degree_scan cw (map Var_of us) (Var_of u, ?n) = Inr b" "?n \<le> snd b"
        "\<forall>u' \<in> set us. length (neighbors cw u') \<le> snd b"
        "b = (Var_of u, ?n) \<or> (\<exists>u' \<in> set us. b = (Var_of u', length (neighbors cw u')))"
      by auto
    from b(1) True have "degree_scan cw (map Var_of (u # us)) best = Inr b" by simp
    moreover from b(2) True have "snd best \<le> snd b" by simp
    moreover from b(2,3) have "\<forall>u' \<in> set (u # us). length (neighbors cw u') \<le> snd b" by simp
    moreover from b(4) have "b = best \<or> (\<exists>u' \<in> set (u # us). b = (Var_of u', length (neighbors cw u')))"
      by auto
    ultimately show ?thesis by blast
  next
    case False
    from Cons.IH[of best] obtain b where
      b: "degree_scan cw (map Var_of us) best = Inr b" "snd best \<le> snd b"
        "\<forall>u' \<in> set us. length (neighbors cw u') \<le> snd b"
        "b = best \<or> (\<exists>u' \<in> set us. b = (Var_of u', length (neighbors cw u')))"
      by auto
    from b(1) False have "degree_scan cw (map Var_of (u # us)) best = Inr b" by simp
    moreover from b(2,3) False have "\<forall>u' \<in> set (u # us). length (neighbors cw u') \<le> snd b" by simp
    moreover from b(4) have "b = best \<or> (\<exists>u' \<in> set (u # us). b = (Var_of u', length (neighbors cw u')))"
      by auto
    ultimately show ?thesis using b(2) by blast
  qed
qed

lemma set_tied:
  "u \<in> set (tied doms asg vars k) \<longleftrightarrow> u \<in> set vars \<and> map_of asg u = None \<and> length (doms u) = k"
  by (auto simp: tied_def)

lemma select_min:
  assumes u0: "u0 \<in> set (variables cw)" "map_of asg u0 = None" "length (doms u0) < 99999"
  shows "\<exists>v. select_unassigned_variable cw doms asg = Inr (Var_of v) \<and>
     v \<in> set (variables cw) \<and> map_of asg v = None \<and>
     (\<forall>u \<in> set (variables cw). map_of asg u = None \<longrightarrow> length (doms v) \<le> length (doms u)) \<and>
     (\<forall>u \<in> set (variables cw). map_of asg u = None \<and> length (doms u) = length (doms v) \<longrightarrow>
        length (neighbors cw u) \<le> length (neighbors cw v))"
proof -
  let ?vars = "variables cw"
  let ?m = "min_count doms asg ?vars 99999"
  let ?T = "tied doms asg ?vars ?m"
  have "?m \<le> length (doms u0)" using u0(1,2) by (rule min_count_lower)
  with u0(3) have lt: "?m < 99999" by simp
  have scan: "select_scan doms asg ?vars [(Int_of 99999, 99999)] = map (\<lambda>u. (Var_of u, ?m)) ?T"
    using lt by (subst select_scan_result[where c = 99999]) simp_all
  from min_count_attained[OF lt] have ne: "?T \<noteq> []"
    by (auto simp: tied_def filter_empty_conv)
  have low: "?m \<le> length (doms u)" if "u \<in> set ?vars" "map_of asg u = None" for u
    using that by (rule min_count_lower)
  have good: "?thesis" if v: "v \<in> set ?T" and sel: "select_unassigned_variable cw doms asg = Inr (Var_of v)"
    and mx: "\<forall>u \<in> set ?T. length (neighbors cw u) \<le> length (neighbors cw v)" for v
  proof -
    from v have vp: "v \<in> set ?vars" "map_of asg v = None" "length (doms v) = ?m"
      by (simp_all add: set_tied)
    have "\<forall>u \<in> set ?vars. map_of asg u = None \<longrightarrow> length (doms v) \<le> length (doms u)"
      using low vp(3) by simp
    moreover have "\<forall>u \<in> set ?vars. map_of asg u = None \<and> length (doms u) = length (doms v) \<longrightarrow>
        length (neighbors cw u) \<le> length (neighbors cw v)"
      using mx vp(3) by (simp add: set_tied)
    ultimately show ?thesis using sel vp(1,2) by blast
  qed
  show ?thesis
  proof (cases "length ?T > 1")
    case True
    from ne have hdT: "hd ?T \<in> set ?T" by simp
    from degree_scan_vars[of cw ?T "(Var_of (hd ?T), 0)"] obtain b where
      b: "degree_scan cw (map Var_of ?T) (Var_of (hd ?T), 0) = Inr b"
        "\<forall>u \<in> set ?T. length (neighbors cw u) \<le> snd b"
        "b = (Var_of (hd ?T), 0) \<or> (\<exists>u \<in> set ?T. b = (Var_of u, length (neighbors cw u)))"
      by blast
    have sel: "select_unassigned_variable cw doms asg = Inr (fst b)"
      using True ne b(1) by (simp add: select_unassigned_variable_def scan comp_def hd_map)
    from b(3) show ?thesis
    proof
      assume "b = (Var_of (hd ?T), 0)"
      with b(2) sel show ?thesis by (intro good[OF hdT]) simp_all
    next
      assume "\<exists>u \<in> set ?T. b = (Var_of u, length (neighbors cw u))"
      then obtain v where "v \<in> set ?T" "b = (Var_of v, length (neighbors cw v))" by blast
      with b(2) sel show ?thesis by (intro good[of v]) simp_all
    qed
  next
    case False
    with ne obtain v where T: "?T = [v]" by (cases ?T) auto
    have sel: "select_unassigned_variable cw doms asg = Inr (Var_of v)"
      by (simp add: select_unassigned_variable_def scan T)
    show ?thesis by (rule good[of v]) (simp_all add: T sel)
  qed
qed

lemma select_complete:
  assumes "assignment_complete cw asg"
  shows "select_unassigned_variable cw doms asg = Inr (Int_of 99999)"
proof -
  have "select_scan doms asg vs mv = mv" if "\<forall>v \<in> set vs. map_of asg v \<noteq> None" for vs mv
    using that by (induction vs) auto
  with assms have "select_scan doms asg (variables cw) [(Int_of 99999, 99999)]
      = [(Int_of 99999, 99999)]"
    by (simp add: assignment_complete_iff)
  then show ?thesis by (simp add: select_unassigned_variable_def)
qed

lemma select_Var:
  assumes "select_unassigned_variable cw doms asg = Inr (Var_of v)"
  shows "v \<in> set (variables cw) \<and> map_of asg v = None"
proof (cases "min_count doms asg (variables cw) 99999 < 99999")
  case True
  from min_count_attained[OF True] obtain u0 where
    u0: "u0 \<in> set (variables cw)" "map_of asg u0 = None" "length (doms u0) < 99999"
    using True by auto
  from select_min[of u0 cw asg doms, OF u0] assms show ?thesis by auto
next
  case False
  let ?T = "tied doms asg (variables cw) 99999"
  have scan: "select_scan doms asg (variables cw) [(Int_of 99999, 99999)]
      = (Int_of 99999, 99999) # map (\<lambda>u. (Var_of u, 99999)) ?T"
    using False by (subst select_scan_result[where c = 99999]) simp_all
  show ?thesis
  proof (cases "?T = []")
    case True
    with assms scan show ?thesis by (simp add: select_unassigned_variable_def)
  next
    case False
    with assms scan show ?thesis by (simp add: select_unassigned_variable_def)
  qed
qed

subsection \<open>Backtracking search\<close>

text \<open>
  \<^verbatim>\<open>consistent\<close>: the inner loop over the neighbors of an assigned variable. For an
  assigned neighbor the overlap is looked up and unpacked (which fails when none is
  recorded) and the two letters are compared, \<^verbatim>\<open>word[i]\<close> first.
\<close>

fun consistent_neighbors ::
  "crossword \<Rightarrow> assignment \<Rightarrow> variable \<Rightarrow> string \<Rightarrow> variable list \<Rightarrow> error + bool"
where
  "consistent_neighbors cw asg var word [] = Inr True"
| "consistent_neighbors cw asg var word (neighbor # rest) =
     (case map_of asg neighbor of
        None \<Rightarrow> consistent_neighbors cw asg var word rest
      | Some nword \<Rightarrow>
          (case overlaps cw (var, neighbor) of
             None \<Rightarrow> Inl TypeError
           | Some (i, j) \<Rightarrow>
               if length word \<le> i then Inl IndexError
               else if length nword \<le> j then Inl IndexError
               else if word ! i \<noteq> nword ! j then Inr False
               else consistent_neighbors cw asg var word rest))"

text \<open>
  The outer loop over the entries of the assignment, in insertion order, with the list
  of the words seen so far (\<^verbatim>\<open>words\<close> in the source).
\<close>

fun consistent_loop ::
  "crossword \<Rightarrow> assignment \<Rightarrow> (variable \<times> string) list \<Rightarrow> string list \<Rightarrow> error + bool"
where
  "consistent_loop cw asg [] seen = Inr True"
| "consistent_loop cw asg ((var, word) # rest) seen =
     (if var_length var \<noteq> length word \<or> word \<in> set seen then Inr False
      else
        (case consistent_neighbors cw asg var word (neighbors cw var) of
           Inl e \<Rightarrow> Inl e
         | Inr ok \<Rightarrow>
             if ok then consistent_loop cw asg rest (seen @ [word]) else Inr False))"

definition consistent :: "crossword \<Rightarrow> assignment \<Rightarrow> error + bool" where
  "consistent cw asg = consistent_loop cw asg asg []"

text \<open>
  \<^verbatim>\<open>assignment.update({var: value})\<close> replaces the word of a key in place or appends a
  new entry; \<^verbatim>\<open>assignment.pop(var)\<close> deletes the entry of a key and raises
  \<^verbatim>\<open>KeyError\<close> when there is none.
\<close>

fun dict_update :: "assignment \<Rightarrow> variable \<Rightarrow> string \<Rightarrow> assignment" where
  "dict_update [] var val = [(var, val)]"
| "dict_update ((k, w) # rest) var val =
     (if k = var then (var, val) # rest else (k, w) # dict_update rest var val)"

fun dict_pop :: "assignment \<Rightarrow> variable \<Rightarrow> error + assignment" where
  "dict_pop [] var = Inl KeyError"
| "dict_pop ((k, w) # rest) var =
     (if k = var then Inr rest
      else (case dict_pop rest var of
              Inl e \<Rightarrow> Inl e
            | Inr rest' \<Rightarrow> Inr ((k, w) # rest')))"

text \<open>\<^verbatim>\<open>if result:\<close> holds for a dict with an entry, not for \<^verbatim>\<open>None\<close> or an empty dict.\<close>

definition truthy :: "assignment option \<Rightarrow> bool" where
  "truthy result = (case result of None \<Rightarrow> False | Some asg \<Rightarrow> asg \<noteq> [])"

text \<open>
  \<^verbatim>\<open>backtrack\<close> and its loop over the ordered values. The assignment is one mutable
  dict, so each call returns its result together with the state it leaves the dict in,
  and the loop continues from the state the recursive call left. The third component
  is the log of the writes of the call: the state of the dict after each
  \<^verbatim>\<open>assignment.update\<close> and each \<^verbatim>\<open>assignment.pop\<close> it has executed, in order. A
  selection that is the integer placeholder fails in \<^verbatim>\<open>order_domain_values\<close> at
  \<^verbatim>\<open>self.domains[var]\<close>.
\<close>

function backtrack ::
    "crossword \<Rightarrow> domains \<Rightarrow> assignment
       \<Rightarrow> error + (assignment option \<times> assignment \<times> assignment list)"
  and backtrack_values ::
    "crossword \<Rightarrow> domains \<Rightarrow> variable \<Rightarrow> string list \<Rightarrow> assignment
       \<Rightarrow> error + (assignment option \<times> assignment \<times> assignment list)"
where
  "backtrack cw doms asg =
     (if assignment_complete cw asg then Inr (Some asg, asg, [])
      else
        (case select_unassigned_variable cw doms asg of
           Inl e \<Rightarrow> Inl e
         | Inr (Int_of k) \<Rightarrow> Inl KeyError
         | Inr (Var_of var) \<Rightarrow>
             (case order_domain_values cw doms var asg of
                Inl e \<Rightarrow> Inl e
              | Inr vals \<Rightarrow> backtrack_values cw doms var vals asg)))"
| "backtrack_values cw doms var [] asg = Inr (None, asg, [])"
| "backtrack_values cw doms var (val # rest) asg =
     (case consistent cw (dict_update asg var val) of
        Inl e \<Rightarrow> Inl e
      | Inr ok \<Rightarrow>
          if ok then
            (case backtrack cw doms (dict_update asg var val) of
               Inl e \<Rightarrow> Inl e
             | Inr (result, asg2, log2) \<Rightarrow>
                 if truthy result then Inr (result, asg2, dict_update asg var val # log2)
                 else
                   (case dict_pop asg2 var of
                      Inl e \<Rightarrow> Inl e
                    | Inr asg3 \<Rightarrow>
                        (case backtrack_values cw doms var rest asg3 of
                           Inl e \<Rightarrow> Inl e
                         | Inr (result4, asg4, log4) \<Rightarrow>
                             Inr (result4, asg4,
                                  dict_update asg var val # log2 @ asg3 # log4))))
          else
            (case dict_pop (dict_update asg var val) var of
               Inl e \<Rightarrow> Inl e
             | Inr asg3 \<Rightarrow>
                 (case backtrack_values cw doms var rest asg3 of
                    Inl e \<Rightarrow> Inl e
                  | Inr (result4, asg4, log4) \<Rightarrow>
                      Inr (result4, asg4, dict_update asg var val # asg3 # log4))))"
  by pat_completeness auto

text \<open>
  Termination: every recursive call of \<^verbatim>\<open>backtrack\<close> has one more variable of the
  crossword assigned. What the loop passes on after a failed recursive call is the
  state that call returned; that a call never loses a key is proved first, on the
  domain of the function.
\<close>

lemma map_of_dict_update:
  "map_of (dict_update asg var val) = (map_of asg)(var \<mapsto> val)"
  by (induction asg var val rule: dict_update.induct) auto

lemma dom_dict_update:
  "dom (map_of (dict_update asg var val)) = insert var (dom (map_of asg))"
  by (simp add: map_of_dict_update)

lemma dict_pop_dom:
  "dict_pop asg var = Inr asg' \<Longrightarrow> dom (map_of asg) \<subseteq> insert var (dom (map_of asg'))"
  by (induction asg var arbitrary: asg' rule: dict_pop.induct)
     (auto split: if_splits sum.splits)

lemma backtrack_keys_partial:
  "backtrack_backtrack_values_dom (Inl (cw, doms, asg)) \<Longrightarrow>
     backtrack cw doms asg = Inr (r, asg', lg) \<Longrightarrow> dom (map_of asg) \<subseteq> dom (map_of asg')"
  "backtrack_backtrack_values_dom (Inr (cw, doms, var, vals, asg)) \<Longrightarrow>
     backtrack_values cw doms var vals asg = Inr (r, asg', lg) \<Longrightarrow>
     dom (map_of asg) \<subseteq> insert var (dom (map_of asg'))"
proof (induction cw doms asg and cw doms var vals asg arbitrary: r asg' lg and r asg' lg
    rule: backtrack_backtrack_values.pinduct)
  case (1 cw doms asg)
  show ?case
  proof (cases "assignment_complete cw asg")
    case True
    with "1.prems" "1.hyps" show ?thesis by (simp add: backtrack.psimps)
  next
    case False
    with "1.prems" "1.hyps" obtain var vals where
      sel: "select_unassigned_variable cw doms asg = Inr (Var_of var)" and
      ord: "order_domain_values cw doms var asg = Inr vals" and
      run: "backtrack_values cw doms var vals asg = Inr (r, asg', lg)"
      by (auto simp: backtrack.psimps split: sum.splits candidate.splits)
    from "1.IH"[OF False sel refl ord run] have "dom (map_of asg) \<subseteq> insert var (dom (map_of asg'))" .
    moreover from select_Var[OF sel] have "var \<notin> dom (map_of asg)" by auto
    ultimately show ?thesis by auto
  qed
next
  case (2 cw doms var asg)
  then show ?case by (auto simp: backtrack_values.psimps)
next
  case (3 cw doms var val rest asg)
  let ?asg1 = "dict_update asg var val"
  from "3.prems" "3.hyps" obtain ok where ok: "consistent cw ?asg1 = Inr ok"
    by (auto simp: backtrack_values.psimps split: sum.splits)
  show ?case
  proof (cases ok)
    case True
    with "3.prems" "3.hyps" ok obtain result asg2 log2 where
      bt: "backtrack cw doms ?asg1 = Inr (result, asg2, log2)"
      by (auto simp: backtrack_values.psimps split: sum.splits)
    from "3.IH"(1)[OF ok True bt] have k2: "dom (map_of ?asg1) \<subseteq> dom (map_of asg2)" .
    show ?thesis
    proof (cases "truthy result")
      case t: True
      with "3.prems" "3.hyps" ok True bt have "asg' = asg2"
        by (simp add: backtrack_values.psimps)
      with k2 show ?thesis unfolding dom_dict_update by blast
    next
      case f: False
      with "3.prems" "3.hyps" ok True bt obtain asg3 log4 where
        pop: "dict_pop asg2 var = Inr asg3" and
        run: "backtrack_values cw doms var rest asg3 = Inr (r, asg', log4)"
        by (auto simp: backtrack_values.psimps split: sum.splits)
      from "3.IH"(2)[OF ok True bt refl refl f pop run]
      have "dom (map_of asg3) \<subseteq> insert var (dom (map_of asg'))" .
      with dict_pop_dom[OF pop] k2 show ?thesis unfolding dom_dict_update by blast
    qed
  next
    case False
    with "3.prems" "3.hyps" ok obtain asg3 log4 where
      pop: "dict_pop ?asg1 var = Inr asg3" and
      run: "backtrack_values cw doms var rest asg3 = Inr (r, asg', log4)"
      by (auto simp: backtrack_values.psimps split: sum.splits)
    from "3.IH"(3)[OF ok False pop run]
    have "dom (map_of asg3) \<subseteq> insert var (dom (map_of asg'))" .
    with dict_pop_dom[OF pop] show ?thesis unfolding dom_dict_update by blast
  qed
qed

text \<open>
  The measure: the number of unassigned variables of the crossword, for the loop not
  counting the variable the loop is assigning.
\<close>

definition unassigned_count :: "crossword \<Rightarrow> assignment \<Rightarrow> nat" where
  "unassigned_count cw asg = length (filter (\<lambda>v. map_of asg v = None) (variables cw))"

definition unassigned_besides :: "crossword \<Rightarrow> variable \<Rightarrow> assignment \<Rightarrow> nat" where
  "unassigned_besides cw var asg =
     length (filter (\<lambda>v. v \<noteq> var \<and> map_of asg v = None) (variables cw))"

definition backtrack_measure ::
  "crossword \<times> domains \<times> assignment + crossword \<times> domains \<times> variable \<times> string list \<times> assignment
     \<Rightarrow> nat \<times> nat \<times> nat"
where
  "backtrack_measure a =
     (case a of
        Inl (cw, doms, asg) \<Rightarrow> (unassigned_count cw asg, 0, 0)
      | Inr (cw, doms, var, vals, asg) \<Rightarrow> (unassigned_besides cw var asg, 1, length vals))"

lemma unassigned_besides_less:
  assumes "var \<in> set (variables cw)" "map_of asg var = None"
  shows "unassigned_besides cw var asg < unassigned_count cw asg"
proof -
  let ?U = "filter (\<lambda>v. map_of asg v = None) (variables cw)"
  have "filter (\<lambda>v. v \<noteq> var \<and> map_of asg v = None) (variables cw) = filter (\<lambda>v. v \<noteq> var) ?U"
    by (simp add: conj_commute)
  moreover from assms have "var \<in> set ?U" by simp
  then have "length (filter (\<lambda>v. v \<noteq> var) ?U) < length ?U"
    by (rule length_filter_less) simp
  ultimately show ?thesis by (simp add: unassigned_besides_def unassigned_count_def)
qed

lemma unassigned_count_update:
  "unassigned_count cw (dict_update asg var val) = unassigned_besides cw var asg"
  unfolding unassigned_count_def unassigned_besides_def map_of_dict_update
  by (rule arg_cong[where f = length], rule filter_cong) auto

lemma length_filter_mono:
  "(\<And>x. x \<in> set xs \<Longrightarrow> P x \<Longrightarrow> Q x) \<Longrightarrow> length (filter P xs) \<le> length (filter Q xs)"
  by (induction xs) auto

lemma unassigned_besides_mono:
  assumes "dom (map_of asg) \<subseteq> insert var (dom (map_of asg'))"
  shows "unassigned_besides cw var asg' \<le> unassigned_besides cw var asg"
  unfolding unassigned_besides_def
  using assms by (intro length_filter_mono) auto

termination backtrack
proof (relation "inv_image (less_than <*lex*> less_than <*lex*> less_than) backtrack_measure",
    goal_cases)
  case 1
  show ?case by (simp add: wf_lex_prod)
next
  case (2 cw doms asg c var vals)
  then have "select_unassigned_variable cw doms asg = Inr (Var_of var)" by simp
  from select_Var[OF this]
  have "unassigned_besides cw var asg < unassigned_count cw asg"
    by (intro unassigned_besides_less) simp_all
  then show ?case by (simp add: backtrack_measure_def)
next
  case (3 cw doms var val rest asg ok)
  show ?case by (simp add: backtrack_measure_def unassigned_count_update)
next
  case (4 cw doms var val rest asg ok res result rest2 asg2 log2 asg3)
  then have bt: "backtrack cw doms (dict_update asg var val) = Inr (result, asg2, log2)"
    and pop: "dict_pop asg2 var = Inr asg3"
    and d: "backtrack_backtrack_values_dom (Inl (cw, doms, dict_update asg var val))"
    by simp_all
  from backtrack_keys_partial(1)[OF d bt] dict_pop_dom[OF pop]
  have "dom (map_of asg) \<subseteq> insert var (dom (map_of asg3))"
    unfolding dom_dict_update by blast
  from unassigned_besides_mono[OF this, of cw]
  show ?case by (auto simp: backtrack_measure_def)
next
  case (5 cw doms var val rest asg ok asg3)
  then have pop: "dict_pop (dict_update asg var val) var = Inr asg3" by simp
  from dict_pop_dom[OF pop]
  have "dom (map_of asg) \<subseteq> insert var (dom (map_of asg3))"
    unfolding dom_dict_update by blast
  from unassigned_besides_mono[OF this, of cw]
  show ?case by (auto simp: backtrack_measure_def)
qed

declare backtrack.simps [simp del]

subsection \<open>The entry point\<close>

text \<open>
  \<^verbatim>\<open>solve\<close> runs node consistency, AC-3 and the search one after the other; the value
  \<^verbatim>\<open>ac3\<close> returns is dropped. Beside the result, the model records which of the three
  methods a run has called.
\<close>

datatype call = Call_enforce_node_consistency | Call_ac3 | Call_backtrack

definition solve_trace :: "crossword \<Rightarrow> (error + assignment option) \<times> call list" where
  "solve_trace cw =
     (let doms1 = enforce_node_consistency cw (init_domains cw) in
      case ac3 cw doms1 None of
        Inl e \<Rightarrow> (Inl e, [Call_enforce_node_consistency, Call_ac3])
      | Inr (ok, doms2) \<Rightarrow>
          (case backtrack cw doms2 [] of
             Inl e \<Rightarrow> (Inl e, [Call_enforce_node_consistency, Call_ac3, Call_backtrack])
           | Inr (result, asg, lg) \<Rightarrow>
               (Inr result, [Call_enforce_node_consistency, Call_ac3, Call_backtrack])))"

text \<open>\<^verbatim>\<open>solve\<close> returns the result of the run.\<close>

definition solve :: "crossword \<Rightarrow> error + assignment option" where
  "solve cw = fst (solve_trace cw)"

section \<open>Properties and example grids\<close>

subsection \<open>Predicates of the specification\<close>

text \<open>The domain length invariant: every word of a domain has the length of its variable.\<close>

definition node_consistent :: "crossword \<Rightarrow> domains \<Rightarrow> bool" where
  "node_consistent cw doms \<longleftrightarrow>
     (\<forall>v \<in> set (variables cw). \<forall>w \<in> set (doms v). length w = var_length v)"

text \<open>
  An assignment that gives every variable a word of its domain such that the words
  agree at every recorded overlap.
\<close>

definition domain_solution :: "crossword \<Rightarrow> domains \<Rightarrow> assignment \<Rightarrow> bool" where
  "domain_solution cw doms asg \<longleftrightarrow>
     (\<forall>v \<in> set (variables cw).
        case map_of asg v of None \<Rightarrow> False | Some w \<Rightarrow> w \<in> set (doms v)) \<and>
     (\<forall>x \<in> set (variables cw). \<forall>y \<in> set (variables cw).
        case overlaps cw (x, y) of
          None \<Rightarrow> True
        | Some (ix, iy) \<Rightarrow>
            (case (map_of asg x, map_of asg y) of
               (Some wx, Some wy) \<Rightarrow> ix < length wx \<and> iy < length wy \<and> wx ! ix = wy ! iy
             | _ \<Rightarrow> True))"

text \<open>
  An arc is supported when the scan of \<^verbatim>\<open>revise\<close> finds, for every word of x's domain,
  an agreeing word in y's domain; \<^verbatim>\<open>revise\<close> then removes nothing.
\<close>

definition arc_supported :: "crossword \<Rightarrow> domains \<Rightarrow> variable \<Rightarrow> variable \<Rightarrow> bool" where
  "arc_supported cw d x y \<longleftrightarrow>
     (case overlaps cw (x, y) of
        None \<Rightarrow> True
      | Some (ox, oy) \<Rightarrow> list_all (\<lambda>w. has_support ox oy w (d y) = Inr True) (d x))"

text \<open>The invariant of the queue: every arc of the problem is in the queue or supported.\<close>

definition arcs_pending :: "crossword \<Rightarrow> domains \<Rightarrow> (variable \<times> variable) list \<Rightarrow> bool" where
  "arcs_pending cw d as \<longleftrightarrow>
     (\<forall>(u, v) \<in> set (all_arcs cw). (u, v) \<in> set as \<or> arc_supported cw d u v)"

text \<open>
  The score as the specification words it, for comparison: only the neighbors that
  the assignment leaves unassigned are counted.
\<close>

definition lcv_score_spec ::
  "crossword \<Rightarrow> domains \<Rightarrow> variable \<Rightarrow> assignment \<Rightarrow> string \<Rightarrow> nat"
where
  "lcv_score_spec cw doms var asg value =
     length (filter (\<lambda>neighbor. map_of asg neighbor = None \<and> value \<in> set (doms neighbor))
               (neighbors cw var))"

text \<open>
  One write of the search to the assignment: an entry for a key the dict does not have
  is added at its end, or its last entry is removed.
\<close>

definition single_change :: "assignment \<Rightarrow> assignment \<Rightarrow> bool" where
  "single_change s s' \<longleftrightarrow>
     (s' \<noteq> [] \<and> butlast s' = s \<and> map_of s (fst (last s')) = None) \<or>
     (s \<noteq> [] \<and> butlast s = s')"

text \<open>
  What a call of \<^verbatim>\<open>backtrack\<close> leaves behind. Its writes start from the dict passed
  in, each is a single change of the state before it, and the last state is the one
  the call returns. On failure that is the dict as it was; on success it is the
  returned dict, which extends the one passed in, binds every variable and, unless it
  is the dict passed in, has passed \<^verbatim>\<open>consistent\<close>.
\<close>

definition backtrack_post ::
  "crossword \<Rightarrow> assignment \<Rightarrow> assignment option \<Rightarrow> assignment \<Rightarrow> assignment list \<Rightarrow> bool"
where
  "backtrack_post cw asg r asg' lg \<longleftrightarrow>
     successively single_change (asg # lg) \<and> last (asg # lg) = asg' \<and>
     (case r of
        None \<Rightarrow> asg' = asg
      | Some a \<Rightarrow> a = asg' \<and> (\<exists>ext. a = asg @ ext) \<and> assignment_complete cw a \<and>
          (a = asg \<or> consistent cw a = Inr True))"

subsection \<open>Example grids\<close>

text \<open>
  An across slot and a down slot of length 3 that cross at the last cell of the one
  and the first cell of the other, with two dictionaries.
\<close>

definition ex_across :: variable where
  "ex_across = \<lparr>var_i = 0, var_j = 0, var_direction = ACROSS, var_length = 3\<rparr>"

definition ex_down :: variable where
  "ex_down = \<lparr>var_i = 0, var_j = 2, var_direction = DOWN, var_length = 3\<rparr>"

definition ex_overlaps :: "variable \<times> variable \<Rightarrow> (nat \<times> nat) option" where
  "ex_overlaps p =
     (if p = (ex_across, ex_down) then Some (2, 0)
      else if p = (ex_down, ex_across) then Some (0, 2)
      else None)"

definition ex_cw :: crossword where
  "ex_cw = \<lparr>variables = [ex_across, ex_down],
            words = [''CAT'', ''DOG'', ''TIP'', ''HOUSE''],
            overlaps = ex_overlaps\<rparr>"

text \<open>The domains of the two example grids after node consistency.\<close>

definition ex_doms :: domains where
  "ex_doms = enforce_node_consistency ex_cw (init_domains ex_cw)"

definition ex_cw2 :: crossword where
  "ex_cw2 = ex_cw\<lparr>words := [''CAT'', ''DOG'']\<rparr>"

definition ex_doms2 :: domains where
  "ex_doms2 = enforce_node_consistency ex_cw2 (init_domains ex_cw2)"

text \<open>A grid with one isolated slot of length 4 and no word of that length.\<close>

definition iso_var :: variable where
  "iso_var = \<lparr>var_i = 0, var_j = 0, var_direction = ACROSS, var_length = 4\<rparr>"

definition iso_cw :: crossword where
  "iso_cw = \<lparr>variables = [iso_var], words = [''CAT'', ''DOG''], overlaps = (\<lambda>p. None)\<rparr>"

text \<open>
  An across slot crossed by three down slots, of which the second and the third are
  assigned.
\<close>

definition lcv_across :: variable where
  "lcv_across = \<lparr>var_i = 0, var_j = 0, var_direction = ACROSS, var_length = 3\<rparr>"

definition lcv_down :: "nat \<Rightarrow> variable" where
  "lcv_down k = \<lparr>var_i = 0, var_j = k, var_direction = DOWN, var_length = 3\<rparr>"

definition lcv_overlaps :: "variable \<times> variable \<Rightarrow> (nat \<times> nat) option" where
  "lcv_overlaps p =
     (if p = (lcv_across, lcv_down 0) then Some (0, 0)
      else if p = (lcv_across, lcv_down 1) then Some (1, 0)
      else if p = (lcv_across, lcv_down 2) then Some (2, 0)
      else if p = (lcv_down 0, lcv_across) then Some (0, 0)
      else if p = (lcv_down 1, lcv_across) then Some (0, 1)
      else if p = (lcv_down 2, lcv_across) then Some (0, 2)
      else None)"

definition lcv_cw :: crossword where
  "lcv_cw = \<lparr>variables = [lcv_across, lcv_down 0, lcv_down 1, lcv_down 2],
             words = [''DOG'', ''CAT'', ''DIM'', ''OAK'', ''GAS''],
             overlaps = lcv_overlaps\<rparr>"

definition lcv_doms :: domains where
  "lcv_doms var =
     (if var = lcv_across then [''DOG'', ''CAT'']
      else if var = lcv_down 0 then [''CAT'', ''DIM'']
      else if var = lcv_down 1 then [''OAK'', ''DOG'']
      else if var = lcv_down 2 then [''GAS'', ''DOG'']
      else [])"

definition lcv_asg :: assignment where
  "lcv_asg = [(lcv_down 1, ''OAK''), (lcv_down 2, ''GAS'')]"

text \<open>
  The crossing with a dictionary as \<^verbatim>\<open>__init__\<close> copies it into every domain, before
  node consistency: it holds a word shorter than the crossing's position in the across
  slot.
\<close>

definition ex_cw3 :: crossword where
  "ex_cw3 = ex_cw\<lparr>words := [''CAT'', ''TIP'', ''AB'']\<rparr>"

text \<open>The slot with three crossings, with the first down slot ahead of the across slot.\<close>

definition tie_cw :: crossword where
  "tie_cw = lcv_cw\<lparr>variables := [lcv_down 0, lcv_across, lcv_down 1, lcv_down 2]\<rparr>"

text \<open>
  One slot of length 5 and a dictionary of 100000 different words of five capital
  letters: the numbers from 0 to 99999 written with the letters as base-26 digits, the
  lowest digit first.
\<close>

definition alphabet :: string where
  "alphabet = ''ABCDEFGHIJKLMNOPQRSTUVWXYZ''"

fun base26 :: "nat \<Rightarrow> nat \<Rightarrow> string" where
  "base26 0 k = []"
| "base26 (Suc n) k = alphabet ! (k mod 26) # base26 n (k div 26)"

definition big_words :: "string list" where
  "big_words = map (base26 5) [0..<100000]"

definition big_var :: variable where
  "big_var = \<lparr>var_i = 0, var_j = 0, var_direction = ACROSS, var_length = 5\<rparr>"

definition big_cw :: crossword where
  "big_cw = \<lparr>variables = [big_var], words = big_words, overlaps = (\<lambda>p. None)\<rparr>"

section \<open>Verification\<close>

subsection \<open>Node and arc consistency\<close>

lemma enforce_var_filter:
  "enforce_var var ws = filter (\<lambda>w. length w = var_length var) ws"
  by (auto simp: enforce_var_def fold_removeAll_filter intro: filter_cong)

lemma enforce_loop_apply:
  "enforce_loop vars doms v =
     (if v \<in> set vars then filter (\<lambda>w. length w = var_length v) (doms v) else doms v)"
  by (induction vars arbitrary: doms) (auto simp: enforce_var_filter)

lemma enforce_node_consistent:
  "node_consistent cw (enforce_node_consistency cw doms)"
  by (simp add: node_consistent_def enforce_node_consistency_def enforce_loop_apply)

lemma revise_subset:
  assumes "revise cw doms x y = Inr (b, doms')"
  shows "set (doms' v) \<subseteq> set (doms v)"
  using revise_domains[OF assms] by (auto split: if_splits)

lemma has_support_cases:
  "has_support ox oy w ys = Inr b \<Longrightarrow>
     (b \<longrightarrow> ox < length w \<and> (\<exists>v \<in> set ys. oy < length v \<and> w ! ox = v ! oy)) \<and>
     (\<not> b \<longrightarrow> (\<forall>v \<in> set ys. ox < length w \<and> oy < length v \<and> w ! ox \<noteq> v ! oy))"
  by (induction ys) (auto split: if_splits)

lemma has_support_defined:
  "ox < length w \<Longrightarrow> \<forall>v \<in> set ys. oy < length v \<Longrightarrow>
     has_support ox oy w ys = Inr (\<exists>v \<in> set ys. w ! ox = v ! oy)"
  by (induction ys) auto

lemma revise_scan_result:
  "revise_scan cw doms (ox, oy) y xs = Inr rl \<Longrightarrow>
     rl = filter (\<lambda>w. has_support ox oy w (doms y) = Inr False) xs \<and>
     (\<forall>w \<in> set xs. has_support ox oy w (doms y) = Inr True
                  \<or> has_support ox oy w (doms y) = Inr False) \<and>
     (xs \<noteq> [] \<longrightarrow> y \<in> set (variables cw))"
  by (induction xs arbitrary: rl) (auto split: if_splits sum.splits)

lemma revise_scan_defined:
  "y \<in> set (variables cw) \<Longrightarrow>
   \<forall>w \<in> set xs. has_support ox oy w (doms y) = Inr True
                 \<or> has_support ox oy w (doms y) = Inr False \<Longrightarrow>
   revise_scan cw doms (ox, oy) y xs =
     Inr (filter (\<lambda>w. has_support ox oy w (doms y) = Inr False) xs)"
  by (induction xs) auto

lemma revise_None:
  "overlaps cw (x, y) = None \<Longrightarrow> revise cw doms x y = Inr (False, doms)"
  by (simp add: revise_def)

lemma revise_Some:
  assumes "overlaps cw (x, y) = Some (ox, oy)" and "revise cw doms x y = Inr (b, doms')"
  shows "x \<in> set (variables cw)"
    and "doms' = doms(x := filter (\<lambda>w. has_support ox oy w (doms y) = Inr True) (doms x))"
    and "\<forall>w \<in> set (doms x). has_support ox oy w (doms y) = Inr True
                           \<or> has_support ox oy w (doms y) = Inr False"
    and "b \<longleftrightarrow> (\<exists>w \<in> set (doms x). has_support ox oy w (doms y) = Inr False)"
    and "doms x \<noteq> [] \<longrightarrow> y \<in> set (variables cw)"
proof -
  from assms obtain rl where
    x: "x \<in> set (variables cw)" and
    rl: "revise_scan cw doms (ox, oy) y (doms x) = Inr rl" and
    b: "b = (rl \<noteq> [])" and
    d: "doms' = doms(x := fold removeAll rl (doms x))"
    by (auto simp: revise_def split: if_splits sum.splits)
  note res = revise_scan_result[OF rl]
  show "x \<in> set (variables cw)" by (rule x)
  show all: "\<forall>w \<in> set (doms x). has_support ox oy w (doms y) = Inr True
                           \<or> has_support ox oy w (doms y) = Inr False"
    using res by blast
  show "doms x \<noteq> [] \<longrightarrow> y \<in> set (variables cw)" using res by blast
  have "set rl = {w \<in> set (doms x). has_support ox oy w (doms y) = Inr False}"
    using res by auto
  then have "filter (\<lambda>w. w \<notin> set rl) (doms x)
             = filter (\<lambda>w. has_support ox oy w (doms y) = Inr True) (doms x)"
    using all by (intro filter_cong) auto
  then show "doms' = doms(x := filter (\<lambda>w. has_support ox oy w (doms y) = Inr True) (doms x))"
    using d by (simp add: fold_removeAll_filter)
  show "b \<longleftrightarrow> (\<exists>w \<in> set (doms x). has_support ox oy w (doms y) = Inr False)"
    using b res by (auto simp: filter_empty_conv)
qed

lemma ac3_loop_rule:
  assumes run: "ac3_loop cw doms arcs = Inr (b, doms')"
    and init: "I doms arcs"
    and unrevised: "\<And>d as x y. \<lbrakk>I d as; as \<noteq> []; last as = (x, y);
        revise cw d x y = Inr (False, d)\<rbrakk> \<Longrightarrow> I d (butlast as)"
    and revised: "\<And>d as x y d1. \<lbrakk>I d as; as \<noteq> []; last as = (x, y);
        revise cw d x y = Inr (True, d1); x \<in> set (variables cw); d1 x \<noteq> []\<rbrakk>
        \<Longrightarrow> I d1 (butlast as @ map (\<lambda>z. (z, x)) (filter (\<lambda>z. z \<noteq> y) (neighbors cw x)))"
    and success: "\<And>d. I d [] \<Longrightarrow> P True d"
    and failure: "\<And>d as x y d1. \<lbrakk>I d as; as \<noteq> []; last as = (x, y);
        revise cw d x y = Inr (True, d1); x \<in> set (variables cw); d1 x = []\<rbrakk>
        \<Longrightarrow> P False d1"
  shows "P b doms'"
  using run init unrevised revised success failure
proof (induction cw doms arcs rule: ac3_loop.induct)
  case (1 cw doms arcs)
  note run = "1.prems"(1) and init = "1.prems"(2) and unrevised = "1.prems"(3)
    and revised = "1.prems"(4) and success = "1.prems"(5) and failure = "1.prems"(6)
  show ?case
  proof (cases "arcs = []")
    case True
    with run init success show ?thesis by (simp add: ac3_loop.simps)
  next
    case False
    obtain x y where xy: "last arcs = (x, y)" by (cases "last arcs")
    from run False xy obtain rv d1 where
      rv: "revise cw doms x y = Inr (rv, d1)"
      by (auto simp: ac3_loop.simps[of cw doms arcs] split: sum.splits)
    show ?thesis
    proof (cases rv)
      case True
      with rv have rvT: "revise cw doms x y = Inr (True, d1)" by simp
      from run False xy rv True have x: "x \<in> set (variables cw)"
        by (auto simp: ac3_loop.simps[of cw doms arcs] split: if_splits)
      show ?thesis
      proof (cases "d1 x = []")
        case True
        with run False xy rv \<open>rv\<close> x have "b = False" "doms' = d1"
          by (auto simp: ac3_loop.simps[of cw doms arcs])
        then show ?thesis using failure[OF init False xy rvT x True] by simp
      next
        case nonempty: False
        with run False xy rv \<open>rv\<close> x have run':
          "ac3_loop cw d1 (butlast arcs @ map (\<lambda>z. (z, x)) (filter (\<lambda>z. z \<noteq> y) (neighbors cw x)))
             = Inr (b, doms')"
          by (auto simp: ac3_loop.simps[of cw doms arcs])
        have "I d1 (butlast arcs @ map (\<lambda>z. (z, x)) (filter (\<lambda>z. z \<noteq> y) (neighbors cw x)))"
          by (rule revised[OF init False xy rvT x nonempty])
        then show ?thesis
          using False xy[symmetric] rv \<open>rv\<close> x nonempty run' unrevised revised success failure
          by (intro "1.IH"(1)[of x y "(rv, d1)" rv d1]) simp_all
      qed
    next
      case unrev: False
      with rv have rv': "revise cw doms x y = Inr (False, d1)" by simp
      have d1: "d1 = doms" by (rule revise_unrevised[OF rv'])
      from run False xy rv unrev have run':
        "ac3_loop cw d1 (butlast arcs) = Inr (b, doms')"
        by (auto simp: ac3_loop.simps[of cw doms arcs])
      have "I d1 (butlast arcs)"
        using unrevised[OF init False xy] rv' d1 by simp
      then show ?thesis
        using False xy[symmetric] rv unrev run' unrevised revised success failure
        by (intro "1.IH"(2)[of x y "(rv, d1)" rv d1]) simp_all
    qed
  qed
qed

lemma ac3_loop_subset:
  assumes "ac3_loop cw doms arcs = Inr (b, doms')"
  shows "set (doms' v) \<subseteq> set (doms v)"
proof (rule ac3_loop_rule[OF assms, where I = "\<lambda>d as. set (d v) \<subseteq> set (doms v)"
        and P = "\<lambda>b d. set (d v) \<subseteq> set (doms v)"])
  show "set (doms v) \<subseteq> set (doms v)" by simp
next
  fix d as x y d1
  assume "set (d v) \<subseteq> set (doms v)" "revise cw d x y = Inr (True, d1)"
  then show "set (d1 v) \<subseteq> set (doms v)" using revise_subset by blast
  then show "set (d1 v) \<subseteq> set (doms v)" .
qed

lemma ac3_subset:
  "ac3 cw doms arcs = Inr (b, doms') \<Longrightarrow> set (doms' v) \<subseteq> set (doms v)"
  unfolding ac3_def by (rule ac3_loop_subset)

lemma node_consistent_subset:
  "node_consistent cw doms \<Longrightarrow> \<forall>v. set (doms' v) \<subseteq> set (doms v) \<Longrightarrow> node_consistent cw doms'"
  unfolding node_consistent_def by blast

text \<open>
  Claim C8 (domain length invariant): after \<^verbatim>\<open>enforce_node_consistency\<close> every word
  of every variable's domain has the variable's length; \<^verbatim>\<open>revise\<close> and \<^verbatim>\<open>ac3\<close> only
  remove words from domains, so they keep this invariant. The search reads the domains
  and never writes them, so the invariant holds for the rest of a \<^verbatim>\<open>solve\<close> run.
\<close>

theorem domain_length_invariant:
  "node_consistent cw (enforce_node_consistency cw doms0) \<and>
   (revise cw doms x y = Inr (changed, doms1) \<longrightarrow>
      (\<forall>v. set (doms1 v) \<subseteq> set (doms v)) \<and>
      (node_consistent cw doms \<longrightarrow> node_consistent cw doms1)) \<and>
   (ac3 cw doms arcs = Inr (ok, doms2) \<longrightarrow>
      (\<forall>v. set (doms2 v) \<subseteq> set (doms v)) \<and>
      (node_consistent cw doms \<longrightarrow> node_consistent cw doms2))"
proof (intro conjI impI)
  show "node_consistent cw (enforce_node_consistency cw doms0)"
    by (rule enforce_node_consistent)
next
  assume r: "revise cw doms x y = Inr (changed, doms1)"
  then show sub: "\<forall>v. set (doms1 v) \<subseteq> set (doms v)"
    using revise_subset by blast
  assume "node_consistent cw doms"
  then show "node_consistent cw doms1" using sub by (rule node_consistent_subset)
next
  assume r: "ac3 cw doms arcs = Inr (ok, doms2)"
  then show sub: "\<forall>v. set (doms2 v) \<subseteq> set (doms v)"
    using ac3_subset by blast
  assume "node_consistent cw doms"
  then show "node_consistent cw doms2" using sub by (rule node_consistent_subset)
qed

text \<open>
  Claim C5, as amended (\<^verbatim>\<open>revise\<close>): without a recorded overlap \<^verbatim>\<open>revise(x, y)\<close> changes
  nothing and returns false. With a recorded overlap \<open>(ix, iy)\<close> between two
  different variables x and y of the crossword, when every word of x's domain is
  longer than \<open>ix\<close> and every word of y's domain is longer than \<open>iy\<close> (as they are
  after node consistency), it keeps in x's domain exactly the words that agree with
  some word of y's domain at the overlap, leaves every other domain (y's too) as it
  was, and returns true iff a word was removed.
\<close>

theorem revise_removes_unsupported:
  "(overlaps cw (x, y) = None \<longrightarrow> revise cw doms x y = Inr (False, doms)) \<and>
   (overlaps cw (x, y) = Some (ix, iy) \<and>
    x \<in> set (variables cw) \<and> y \<in> set (variables cw) \<and> x \<noteq> y \<and>
    (\<forall>w \<in> set (doms x). ix < length w) \<and> (\<forall>v \<in> set (doms y). iy < length v) \<longrightarrow>
    (\<exists>changed doms'.
       revise cw doms x y = Inr (changed, doms') \<and>
       doms' x = filter (\<lambda>w. \<exists>v \<in> set (doms y). w ! ix = v ! iy) (doms x) \<and>
       (\<forall>z. z \<noteq> x \<longrightarrow> doms' z = doms z) \<and> doms' y = doms y \<and>
       (changed \<longleftrightarrow> (\<exists>w \<in> set (doms x). w \<notin> set (doms' x)))))"
proof (intro conjI impI)
  assume "overlaps cw (x, y) = None"
  then show "revise cw doms x y = Inr (False, doms)" by (rule revise_None)
next
  assume a: "overlaps cw (x, y) = Some (ix, iy) \<and>
    x \<in> set (variables cw) \<and> y \<in> set (variables cw) \<and> x \<noteq> y \<and>
    (\<forall>w \<in> set (doms x). ix < length w) \<and> (\<forall>v \<in> set (doms y). iy < length v)"
  let ?sup = "\<lambda>w. \<exists>v \<in> set (doms y). w ! ix = v ! iy"
  have hs: "has_support ix iy w (doms y) = Inr (?sup w)" if "w \<in> set (doms x)" for w
    using a that by (intro has_support_defined) auto
  then have scan: "revise_scan cw doms (ix, iy) y (doms x)
      = Inr (filter (\<lambda>w. has_support ix iy w (doms y) = Inr False) (doms x))"
    using a by (intro revise_scan_defined) auto
  have rl: "filter (\<lambda>w. has_support ix iy w (doms y) = Inr False) (doms x)
      = filter (\<lambda>w. \<not> ?sup w) (doms x)"
    using hs by (intro filter_cong) auto
  let ?d = "doms(x := filter ?sup (doms x))"
  have keep: "filter (\<lambda>w. w \<notin> set (filter (\<lambda>w. \<not> ?sup w) (doms x))) (doms x) = filter ?sup (doms x)"
    by (intro filter_cong) auto
  have "revise cw doms x y = Inr (filter (\<lambda>w. \<not> ?sup w) (doms x) \<noteq> [], ?d)"
    using a scan rl keep by (simp add: revise_def fold_removeAll_filter)
  moreover have "(filter (\<lambda>w. \<not> ?sup w) (doms x) \<noteq> []) \<longleftrightarrow> (\<exists>w \<in> set (doms x). w \<notin> set (?d x))"
    by (auto simp: filter_empty_conv)
  moreover have "?d y = doms y" using a by auto
  ultimately show "\<exists>changed doms'.
       revise cw doms x y = Inr (changed, doms') \<and>
       doms' x = filter ?sup (doms x) \<and>
       (\<forall>z. z \<noteq> x \<longrightarrow> doms' z = doms z) \<and> doms' y = doms y \<and>
       (changed \<longleftrightarrow> (\<exists>w \<in> set (doms x). w \<notin> set (doms' x)))"
    by (intro exI[of _ "filter (\<lambda>w. \<not> ?sup w) (doms x) \<noteq> []"] exI[of _ ?d]) simp
qed

lemma ex_neq [simp]: "ex_across \<noteq> ex_down" "ex_down \<noteq> ex_across"
  by (simp_all add: ex_across_def ex_down_def)

lemma ex_lengths [simp]: "var_length ex_across = 3" "var_length ex_down = 3"
  by (simp_all add: ex_across_def ex_down_def)

lemma ex_cw_simps [simp]:
  "variables ex_cw = [ex_across, ex_down]"
  "words ex_cw = [''CAT'', ''DOG'', ''TIP'', ''HOUSE'']"
  "overlaps ex_cw = ex_overlaps"
  by (simp_all add: ex_cw_def)

lemma ex_neighbors [simp]:
  "neighbors ex_cw ex_across = [ex_down]" "neighbors ex_cw ex_down = [ex_across]"
  by (simp_all add: neighbors_def ex_overlaps_def)

lemma ex_wf: "wf_crossword ex_cw"
  by (simp add: wf_crossword_def ex_overlaps_def)

lemma ex_doms_simps [simp]:
  "ex_doms ex_across = [''CAT'', ''DOG'', ''TIP'']"
  "ex_doms ex_down = [''CAT'', ''DOG'', ''TIP'']"
  by (simp_all add: ex_doms_def enforce_node_consistency_def enforce_var_filter init_domains_def)

lemma revise_keeps_solutions:
  assumes rv: "revise cw d x y = Inr (b, d1)" and sol: "domain_solution cw d asg"
  shows "domain_solution cw d1 asg"
proof (cases "overlaps cw (x, y)")
  case None
  with rv have "d1 = d" by (simp add: revise_def)
  with sol show ?thesis by simp
next
  case (Some ov)
  obtain ox oy where ov: "ov = (ox, oy)" by (cases ov)
  note ovl = Some[unfolded ov]
  note r = revise_Some[OF ovl rv]
  from sol r(1) obtain wx where wx: "map_of asg x = Some wx" "wx \<in> set (d x)"
    by (auto simp: domain_solution_def split: option.splits)
  have "has_support ox oy wx (d y) = Inr True"
  proof (rule ccontr)
    assume "has_support ox oy wx (d y) \<noteq> Inr True"
    with r(3) wx(2) have f: "has_support ox oy wx (d y) = Inr False" by blast
    from wx(2) r(5) have y: "y \<in> set (variables cw)" by auto
    with sol obtain wy where wy: "map_of asg y = Some wy" "wy \<in> set (d y)"
      by (auto simp: domain_solution_def split: option.splits)
    from has_support_cases[OF f] wy(2) have "wx ! ox \<noteq> wy ! oy" by auto
    moreover from sol r(1) y ovl wx(1) wy(1) have "wx ! ox = wy ! oy"
      by (fastforce simp: domain_solution_def)
    ultimately show False by contradiction
  qed
  with wx(2) have in1: "wx \<in> set (d1 x)" using r(2) by simp
  have other: "d1 v = d v" if "v \<noteq> x" for v using r(2) that by simp
  have "case map_of asg v of None \<Rightarrow> False | Some w \<Rightarrow> w \<in> set (d1 v)"
    if v: "v \<in> set (variables cw)" for v
  proof (cases "v = x")
    case True
    with wx(1) in1 show ?thesis by simp
  next
    case False
    from sol v have "case map_of asg v of None \<Rightarrow> False | Some w \<Rightarrow> w \<in> set (d v)"
      by (simp add: domain_solution_def)
    with other[OF False] show ?thesis by (simp split: option.splits)
  qed
  with sol show ?thesis by (simp add: domain_solution_def)
qed

text \<open>
  Claim C3 (soundness of AC-3 pruning): when \<^verbatim>\<open>ac3\<close> returns false, no assignment
  gives every variable a word of its domain, as the domains stood at the call, such
  that the words agree at every recorded overlap.
\<close>

theorem ac3_failure_sound:
  assumes "ac3 cw doms arcs = Inr (False, doms')"
  shows "\<not> (\<exists>asg. domain_solution cw doms asg)"
proof -
  let ?arcs = "case arcs of None \<Rightarrow> all_arcs cw
               | Some given \<Rightarrow> if given = [] then all_arcs cw else given"
  from assms have run: "ac3_loop cw doms ?arcs = Inr (False, doms')"
    by (simp add: ac3_def)
  have "\<not> False \<longrightarrow> \<not> (\<exists>asg. domain_solution cw doms asg)"
  proof (rule ac3_loop_rule[OF run,
        where I = "\<lambda>d as. \<forall>asg. domain_solution cw doms asg \<longrightarrow> domain_solution cw d asg"
          and P = "\<lambda>b d. \<not> b \<longrightarrow> \<not> (\<exists>asg. domain_solution cw doms asg)"])
    show "\<forall>asg. domain_solution cw doms asg \<longrightarrow> domain_solution cw doms asg" by simp
  next
    fix d as x y d1
    assume inv: "\<forall>asg. domain_solution cw doms asg \<longrightarrow> domain_solution cw d asg"
      and rv: "revise cw d x y = Inr (True, d1)"
    show "\<forall>asg. domain_solution cw doms asg \<longrightarrow> domain_solution cw d1 asg"
      using inv revise_keeps_solutions[OF rv] by blast
    assume x: "x \<in> set (variables cw)" and empty: "d1 x = []"
    show "\<not> False \<longrightarrow> \<not> (\<exists>asg. domain_solution cw doms asg)"
    proof (intro impI notI)
      assume "\<exists>asg. domain_solution cw doms asg"
      then obtain asg where "domain_solution cw doms asg" ..
      with inv have "domain_solution cw d asg" by blast
      then have "domain_solution cw d1 asg" by (rule revise_keeps_solutions[OF rv])
      with x empty show False
        by (auto simp: domain_solution_def split: option.splits)
    qed
  qed simp_all
  then show ?thesis by simp
qed

lemma ex_cw2_simps [simp]:
  "variables ex_cw2 = [ex_across, ex_down]"
  "words ex_cw2 = [''CAT'', ''DOG'']"
  "overlaps ex_cw2 = ex_overlaps"
  by (simp_all add: ex_cw2_def)

lemma ex2_neighbors [simp]:
  "neighbors ex_cw2 ex_across = [ex_down]" "neighbors ex_cw2 ex_down = [ex_across]"
  by (simp_all add: neighbors_def ex_overlaps_def)

lemma ex_doms2_simps [simp]:
  "ex_doms2 ex_across = [''CAT'', ''DOG'']"
  "ex_doms2 ex_down = [''CAT'', ''DOG'']"
  by (simp_all add: ex_doms2_def enforce_node_consistency_def enforce_var_filter init_domains_def)

text \<open>Claim C8 at the crossing of two slots of length 3.\<close>

theorem domain_length_invariant_witness:
  "node_consistent ex_cw (enforce_node_consistency ex_cw (init_domains ex_cw)) \<and>
   revise ex_cw ex_doms ex_across ex_down = Inr (True, ex_doms(ex_across := [''CAT''])) \<and>
   node_consistent ex_cw ex_doms \<and>
   node_consistent ex_cw (ex_doms(ex_across := [''CAT''])) \<and>
   ac3 ex_cw ex_doms None = Inr (True, ex_doms(ex_down := [''TIP''], ex_across := [''CAT''])) \<and>
   node_consistent ex_cw (ex_doms(ex_down := [''TIP''], ex_across := [''CAT'']))"
proof -
  have r: "revise ex_cw ex_doms ex_across ex_down = Inr (True, ex_doms(ex_across := [''CAT'']))"
    by (simp add: revise_def ex_overlaps_def)
  have a: "ac3 ex_cw ex_doms None
      = Inr (True, ex_doms(ex_down := [''TIP''], ex_across := [''CAT'']))"
    by (simp add: ac3_def all_arcs_def ac3_loop.simps revise_def ex_overlaps_def)
  have n: "node_consistent ex_cw ex_doms"
    by (simp add: node_consistent_def)
  from domain_length_invariant[of ex_cw "init_domains ex_cw" ex_doms ex_across ex_down
      True "ex_doms(ex_across := [''CAT''])" None True
      "ex_doms(ex_down := [''TIP''], ex_across := [''CAT''])"] r a n
  show ?thesis by blast
qed

text \<open>
  Claim C5 as amended, at the same crossing: only \<open>CAT\<close> ends in a letter that starts
  a word.
\<close>

theorem revise_removes_unsupported_witness:
  "overlaps ex_cw (ex_across, ex_across) = None \<and>
   revise ex_cw ex_doms ex_across ex_across = Inr (False, ex_doms) \<and>
   overlaps ex_cw (ex_across, ex_down) = Some (2, 0) \<and>
   list_all (\<lambda>w. 2 < length w) (ex_doms ex_across) \<and>
   list_all (\<lambda>v. 0 < length v) (ex_doms ex_down) \<and>
   (\<exists>doms'. revise ex_cw ex_doms ex_across ex_down = Inr (True, doms') \<and>
      doms' ex_across = [''CAT''] \<and> doms' ex_down = [''CAT'', ''DOG'', ''TIP''])"
proof -
  have none: "overlaps ex_cw (ex_across, ex_across) = None"
    by (simp add: ex_overlaps_def)
  have some: "overlaps ex_cw (ex_across, ex_down) = Some (2, 0)"
    by (simp add: ex_overlaps_def)
  from revise_removes_unsupported[of ex_cw ex_across ex_across ex_doms 0 0] none
  have 1: "revise ex_cw ex_doms ex_across ex_across = Inr (False, ex_doms)" by blast
  from revise_removes_unsupported[of ex_cw ex_across ex_down ex_doms 2 0] some
  obtain changed doms' where
    "revise ex_cw ex_doms ex_across ex_down = Inr (changed, doms')"
    "doms' ex_across = filter (\<lambda>w. \<exists>v \<in> set (ex_doms ex_down). w ! 2 = v ! 0) (ex_doms ex_across)"
    "doms' ex_down = ex_doms ex_down"
    "changed \<longleftrightarrow> (\<exists>w \<in> set (ex_doms ex_across). w \<notin> set (doms' ex_across))"
    by auto
  then have "revise ex_cw ex_doms ex_across ex_down = Inr (True, doms') \<and>
      doms' ex_across = [''CAT''] \<and> doms' ex_down = [''CAT'', ''DOG'', ''TIP'']"
    by simp
  with none some 1 show ?thesis by auto
qed

lemma ex_cw3_simps [simp]:
  "variables ex_cw3 = [ex_across, ex_down]"
  "words ex_cw3 = [''CAT'', ''TIP'', ''AB'']"
  "overlaps ex_cw3 = ex_overlaps"
  by (simp_all add: ex_cw3_def ex_cw_def)

text \<open>
  Claim C5 as stated fails on the domains as \<^verbatim>\<open>__init__\<close> leaves them: the overlap is
  recorded, the word \<open>AB\<close> of x's domain has no letter at position 2, and \<^verbatim>\<open>revise\<close>
  raises \<^verbatim>\<open>IndexError\<close> at \<^verbatim>\<open>xword[overlap[0]]\<close>; it removes nothing and returns
  nothing.
\<close>

theorem revise_index_error_counterexample:
  "overlaps ex_cw3 (ex_across, ex_down) = Some (2, 0) \<and>
   init_domains ex_cw3 ex_across = [''CAT'', ''TIP'', ''AB''] \<and>
   init_domains ex_cw3 ex_down = [''CAT'', ''TIP'', ''AB''] \<and>
   revise ex_cw3 (init_domains ex_cw3) ex_across ex_down = Inl IndexError"
  by (simp add: revise_def init_domains_def ex_overlaps_def)

text \<open>Claim C3 on a dictionary in which no two words fit the crossing.\<close>

theorem ac3_failure_sound_witness:
  "ac3 ex_cw2 ex_doms2 None = Inr (False, ex_doms2(ex_down := [])) \<and>
   \<not> (\<exists>asg. domain_solution ex_cw2 ex_doms2 asg)"
proof -
  have a: "ac3 ex_cw2 ex_doms2 None = Inr (False, ex_doms2(ex_down := []))"
    by (simp add: ac3_def all_arcs_def ac3_loop.simps revise_def ex_overlaps_def)
  from ac3_failure_sound[OF a] a show ?thesis by simp
qed

lemma set_all_arcs:
  "(x, y) \<in> set (all_arcs cw) \<longleftrightarrow>
     x \<in> set (variables cw) \<and> y \<in> set (variables cw) \<and> x \<noteq> y \<and> overlaps cw (x, y) \<noteq> None"
  by (auto simp: all_arcs_def neighbors_def)

lemma set_neighbors:
  "z \<in> set (neighbors cw x) \<longleftrightarrow> z \<in> set (variables cw) \<and> z \<noteq> x \<and> overlaps cw (x, z) \<noteq> None"
  by (auto simp: neighbors_def)

lemma wf_crossword_overlap:
  assumes "wf_crossword cw" "x \<in> set (variables cw)" "y \<in> set (variables cw)"
    "overlaps cw (x, y) = Some (ox, oy)"
  shows "x \<noteq> y" "overlaps cw (y, x) = Some (oy, ox)" "ox < var_length x" "oy < var_length y"
proof -
  from assms(1,2,3) have
    "case overlaps cw (x, y) of None \<Rightarrow> True
     | Some (ix, iy) \<Rightarrow> x \<noteq> y \<and> overlaps cw (y, x) = Some (iy, ix) \<and>
         ix < var_length x \<and> iy < var_length y"
    unfolding wf_crossword_def by blast
  with assms(4) have "x \<noteq> y \<and> overlaps cw (y, x) = Some (oy, ox) \<and>
         ox < var_length x \<and> oy < var_length y"
    by simp
  then show "x \<noteq> y" "overlaps cw (y, x) = Some (oy, ox)" "ox < var_length x" "oy < var_length y"
    by simp_all
qed

lemma arc_supported_revise:
  assumes "x \<in> set (variables cw)" "y \<in> set (variables cw)" "arc_supported cw d x y"
  shows "revise cw d x y = Inr (False, d)"
proof (cases "overlaps cw (x, y)")
  case None
  then show ?thesis by (rule revise_None)
next
  case (Some ov)
  obtain ox oy where ov: "ov = (ox, oy)" by (cases ov)
  from assms(3) Some ov have all: "\<forall>w \<in> set (d x). has_support ox oy w (d y) = Inr True"
    by (simp add: arc_supported_def list_all_iff)
  then have "revise_scan cw d (ox, oy) y (d x)
      = Inr (filter (\<lambda>w. has_support ox oy w (d y) = Inr False) (d x))"
    using assms(2) by (intro revise_scan_defined) auto
  moreover have "filter (\<lambda>w. has_support ox oy w (d y) = Inr False) (d x) = []"
    using all by (simp add: filter_empty_conv)
  ultimately show ?thesis
    using Some ov assms(1) by (simp add: revise_def)
qed

lemma revise_unrevised_supported:
  assumes "revise cw d x y = Inr (False, d')"
  shows "arc_supported cw d x y"
proof (cases "overlaps cw (x, y)")
  case None
  then show ?thesis by (simp add: arc_supported_def)
next
  case (Some ov)
  obtain ox oy where ov: "ov = (ox, oy)" by (cases ov)
  note r = revise_Some[OF Some[unfolded ov] assms]
  from r(3,4) have "\<forall>w \<in> set (d x). has_support ox oy w (d y) = Inr True" by blast
  with Some ov show ?thesis by (simp add: arc_supported_def list_all_iff)
qed

lemma revise_makes_supported:
  assumes "revise cw d x y = Inr (b, d1)" "x \<noteq> y"
  shows "arc_supported cw d1 x y"
proof (cases "overlaps cw (x, y)")
  case None
  then show ?thesis by (simp add: arc_supported_def)
next
  case (Some ov)
  obtain ox oy where ov: "ov = (ox, oy)" by (cases ov)
  note r = revise_Some[OF Some[unfolded ov] assms(1)]
  from r(2) assms(2) show ?thesis
    using Some ov by (simp add: arc_supported_def list_all_iff)
qed

lemma has_support_filter:
  "has_support a b v ws = Inr True \<Longrightarrow>
   (\<forall>w \<in> set ws. a < length v \<and> b < length w \<and> v ! a = w ! b \<longrightarrow> P w) \<Longrightarrow>
   has_support a b v (filter P ws) = Inr True"
  by (induction ws) (auto split: if_splits)

lemma revise_keeps_reverse_arc:
  assumes ov: "overlaps cw (x, y) = Some (ox, oy)" "overlaps cw (y, x) = Some (oy, ox)"
    and ne: "x \<noteq> y"
    and rv: "revise cw d x y = Inr (b, d1)"
    and sup: "arc_supported cw d y x"
  shows "arc_supported cw d1 y x"
proof -
  note r = revise_Some[OF ov(1) rv]
  let ?keep = "\<lambda>w. has_support ox oy w (d y) = Inr True"
  have d1: "d1 y = d y" "d1 x = filter ?keep (d x)" using r(2) ne by auto
  have "has_support oy ox v (filter ?keep (d x)) = Inr True" if v: "v \<in> set (d y)" for v
  proof (rule has_support_filter)
    show "has_support oy ox v (d x) = Inr True"
      using sup ov(2) v by (simp add: arc_supported_def list_all_iff)
    show "\<forall>w \<in> set (d x). oy < length v \<and> ox < length w \<and> v ! oy = w ! ox \<longrightarrow> ?keep w"
    proof (intro ballI impI)
      fix w assume w: "w \<in> set (d x)" and m: "oy < length v \<and> ox < length w \<and> v ! oy = w ! ox"
      show "?keep w"
      proof (rule ccontr)
        assume "\<not> ?keep w"
        with r(3) w have "has_support ox oy w (d y) = Inr False" by blast
        from has_support_cases[OF this] v m show False by auto
      qed
    qed
  qed
  then show ?thesis using ov(2) d1 by (simp add: arc_supported_def list_all_iff)
qed

lemma arc_supported_shrink:
  assumes "arc_supported cw d u v" "set (d1 u) \<subseteq> set (d u)" "d1 v = d v"
  shows "arc_supported cw d1 u v"
  using assms by (auto simp: arc_supported_def list_all_iff split: option.splits)

lemma in_butlast:
  "a \<in> set as \<Longrightarrow> a \<noteq> last as \<Longrightarrow> a \<in> set (butlast as)"
  by (induction as) (auto split: if_splits)

lemma ac3_loop_drain:
  "\<forall>(x, y) \<in> set as. x \<in> set (variables cw) \<and> y \<in> set (variables cw) \<and> arc_supported cw d x y
   \<Longrightarrow> ac3_loop cw d as = Inr (True, d)"
proof (induction as rule: rev_induct)
  case Nil
  show ?case by (simp add: ac3_loop.simps)
next
  case (snoc a as)
  obtain x y where a: "a = (x, y)" by (cases a)
  from snoc.prems a have "revise cw d x y = Inr (False, d)"
    by (intro arc_supported_revise) auto
  moreover from snoc have "ac3_loop cw d as = Inr (True, d)" by auto
  ultimately show ?case
    unfolding a by (subst ac3_loop.simps) simp
qed

lemma arcs_pending_unrevised:
  assumes inv: "arcs_pending cw d as" and ne: "as \<noteq> []" and l: "last as = (x, y)"
    and rv: "revise cw d x y = Inr (False, d)"
  shows "arcs_pending cw d (butlast as)"
  unfolding arcs_pending_def
proof (intro ballI, clarify)
  fix u v assume uv: "(u, v) \<in> set (all_arcs cw)" and ns: "\<not> arc_supported cw d u v"
  from inv uv ns have "(u, v) \<in> set as" by (auto simp: arcs_pending_def)
  moreover have "(u, v) \<noteq> last as"
    using ns revise_unrevised_supported[OF rv] l by auto
  ultimately show "(u, v) \<in> set (butlast as)" by (rule in_butlast)
qed

lemma arcs_pending_revised:
  assumes wf: "wf_crossword cw"
    and inv: "arcs_pending cw d as" and ne: "as \<noteq> []" and l: "last as = (x, y)"
    and rv: "revise cw d x y = Inr (True, d1)" and x: "x \<in> set (variables cw)"
  shows "arcs_pending cw d1
           (butlast as @ map (\<lambda>z. (z, x)) (filter (\<lambda>z. z \<noteq> y) (neighbors cw x)))"
proof -
  obtain ox oy where ov: "overlaps cw (x, y) = Some (ox, oy)"
    using rv revise_None[of cw x y d] by (cases "overlaps cw (x, y)") auto
  note r = revise_Some[OF ov rv]
  from r(4) have "d x \<noteq> []" by auto
  with r(5) have y: "y \<in> set (variables cw)" by simp
  note w = wf_crossword_overlap[OF wf x y ov]
  have d1x: "set (d1 x) \<subseteq> set (d x)" using r(2) by auto
  have d1o: "d1 v = d v" if "v \<noteq> x" for v using r(2) that by simp
  have main: "arc_supported cw d1 u v"
    if uv: "(u, v) \<in> set (all_arcs cw)"
      and nq: "(u, v) \<notin> set (butlast as @ map (\<lambda>z. (z, x)) (filter (\<lambda>z. z \<noteq> y) (neighbors cw x)))"
    for u v
  proof -
    from uv have uvp: "u \<in> set (variables cw)" "v \<in> set (variables cw)" "u \<noteq> v"
      "overlaps cw (u, v) \<noteq> None"
      by (simp_all add: set_all_arcs)
    from nq have nb: "(u, v) \<notin> set (butlast as)" by simp
    have old: "arc_supported cw d u v" if "(u, v) \<noteq> (x, y)"
    proof (rule ccontr)
      assume "\<not> arc_supported cw d u v"
      with inv uv have "(u, v) \<in> set as" by (auto simp: arcs_pending_def)
      with that l have "(u, v) \<in> set (butlast as)" by (intro in_butlast) auto
      with nb show False by contradiction
    qed
    show "arc_supported cw d1 u v"
    proof (cases "v = x")
      case True
      from uvp(4) True obtain a b where ovu: "overlaps cw (u, x) = Some (a, b)" by auto
      from wf_crossword_overlap[OF wf uvp(1) x ovu] have "overlaps cw (x, u) \<noteq> None" by simp
      with uvp(1,3) True have "u \<in> set (neighbors cw x)" by (simp add: set_neighbors)
      with nq True have "u = y" by auto
      with True uvp(3) have "arc_supported cw d y x" using old by auto
      from revise_keeps_reverse_arc[OF ov w(2) w(1) rv this] \<open>u = y\<close> True
      show ?thesis by simp
    next
      case False
      show ?thesis
      proof (cases "(u, v) = (x, y)")
        case True
        with revise_makes_supported[OF rv w(1)] show ?thesis by simp
      next
        case neq: False
        show ?thesis
        proof (rule arc_supported_shrink[OF old[OF neq]])
          show "set (d1 u) \<subseteq> set (d u)" using d1x d1o[of u] by (cases "u = x") auto
          show "d1 v = d v" using False by (rule d1o)
        qed
      qed
    qed
  qed
  show ?thesis
    unfolding arcs_pending_def using main by blast
qed

text \<open>
  Claim C7 (AC-3 is idempotent at its fixed point): on a well-formed crossword, right
  after \<^verbatim>\<open>ac3()\<close> has returned true, a second \<^verbatim>\<open>ac3()\<close> without explicit arcs returns
  true and leaves every domain as it is.
\<close>

theorem ac3_idempotent:
  assumes wf: "wf_crossword cw" and first: "ac3 cw doms None = Inr (True, doms1)"
  shows "ac3 cw doms1 None = Inr (True, doms1)"
proof -
  from first have run: "ac3_loop cw doms (all_arcs cw) = Inr (True, doms1)"
    by (simp add: ac3_def)
  have "True \<longrightarrow> arcs_pending cw doms1 []"
  proof (rule ac3_loop_rule[OF run, where I = "arcs_pending cw"
        and P = "\<lambda>b d. b \<longrightarrow> arcs_pending cw d []"])
    show "arcs_pending cw doms (all_arcs cw)" by (auto simp: arcs_pending_def)
  next
    fix d as x y
    assume "arcs_pending cw d as" "as \<noteq> []" "last as = (x, y)" "revise cw d x y = Inr (False, d)"
    then show "arcs_pending cw d (butlast as)" by (rule arcs_pending_unrevised)
  next
    fix d as x y d1
    assume "arcs_pending cw d as" "as \<noteq> []" "last as = (x, y)"
      "revise cw d x y = Inr (True, d1)" "x \<in> set (variables cw)"
    then show "arcs_pending cw d1
        (butlast as @ map (\<lambda>z. (z, x)) (filter (\<lambda>z. z \<noteq> y) (neighbors cw x)))"
      by (rule arcs_pending_revised[OF wf])
  qed simp_all
  then have "\<forall>(x, y) \<in> set (all_arcs cw).
      x \<in> set (variables cw) \<and> y \<in> set (variables cw) \<and> arc_supported cw doms1 x y"
    by (auto simp: arcs_pending_def set_all_arcs)
  then have "ac3_loop cw doms1 (all_arcs cw) = Inr (True, doms1)"
    by (rule ac3_loop_drain)
  then show ?thesis by (simp add: ac3_def)
qed

text \<open>Claim C7 at the crossing of two slots of length 3.\<close>

theorem ac3_idempotent_witness:
  "wf_crossword ex_cw \<and>
   ac3 ex_cw ex_doms None = Inr (True, ex_doms(ex_down := [''TIP''], ex_across := [''CAT''])) \<and>
   ac3 ex_cw (ex_doms(ex_down := [''TIP''], ex_across := [''CAT''])) None
     = Inr (True, ex_doms(ex_down := [''TIP''], ex_across := [''CAT'']))"
proof -
  have a: "ac3 ex_cw ex_doms None
      = Inr (True, ex_doms(ex_down := [''TIP''], ex_across := [''CAT'']))"
    by (simp add: ac3_def all_arcs_def ac3_loop.simps revise_def ex_overlaps_def)
  from ac3_idempotent[OF ex_wf a] ex_wf a show ?thesis by simp
qed

subsection \<open>Search heuristics\<close>

text \<open>
  Claim C10 (precondition of variable selection): on an assignment that binds every
  variable, \<^verbatim>\<open>select_unassigned_variable\<close> returns the integer placeholder 99999;
  whenever it returns a Variable, the assignment is incomplete and the variable is an
  unassigned variable of the crossword.
\<close>

theorem select_needs_unassigned:
  "(assignment_complete cw asg \<longrightarrow>
      select_unassigned_variable cw doms asg = Inr (Int_of 99999)) \<and>
   (select_unassigned_variable cw doms asg = Inr (Var_of v) \<longrightarrow>
      \<not> assignment_complete cw asg \<and> v \<in> set (variables cw) \<and> map_of asg v = None)"
proof (intro conjI impI)
  assume "assignment_complete cw asg"
  then show "select_unassigned_variable cw doms asg = Inr (Int_of 99999)"
    by (rule select_complete)
next
  assume a: "select_unassigned_variable cw doms asg = Inr (Var_of v)"
  from select_Var[OF a] show "v \<in> set (variables cw)" "map_of asg v = None" by simp_all
  then show "\<not> assignment_complete cw asg" by (auto simp: assignment_complete_iff)
qed

text \<open>Claim C10 at the crossing: a complete assignment, and one that leaves the down slot.\<close>

theorem select_needs_unassigned_witness:
  "assignment_complete ex_cw [(ex_across, ''CAT''), (ex_down, ''TIP'')] \<and>
   select_unassigned_variable ex_cw ex_doms [(ex_across, ''CAT''), (ex_down, ''TIP'')]
     = Inr (Int_of 99999) \<and>
   select_unassigned_variable ex_cw ex_doms [(ex_across, ''CAT'')] = Inr (Var_of ex_down) \<and>
   \<not> assignment_complete ex_cw [(ex_across, ''CAT'')]"
proof -
  have c: "assignment_complete ex_cw [(ex_across, ''CAT''), (ex_down, ''TIP'')]"
    by (simp add: assignment_complete_def)
  have s: "select_unassigned_variable ex_cw ex_doms [(ex_across, ''CAT'')] = Inr (Var_of ex_down)"
    by (simp add: select_unassigned_variable_def)
  from select_needs_unassigned[of ex_cw "[(ex_across, ''CAT''), (ex_down, ''TIP'')]" ex_doms] c
    select_needs_unassigned[of ex_cw "[(ex_across, ''CAT'')]" ex_doms ex_down] s
  show ?thesis by blast
qed

lemma insort_key_pair:
  "insort_key snd (v, f v) (map (\<lambda>w. (w, f w)) ys) = map (\<lambda>w. (w, f w)) (insort_key f v ys)"
  by (induction ys) auto

lemma sort_key_pair:
  "sort_key snd (map (\<lambda>w. (w, f w)) xs) = map (\<lambda>w. (w, f w)) (sort_key f xs)"
  by (induction xs) (simp_all add: insort_key_pair)

lemma order_domain_values_sort:
  "var \<in> set (variables cw) \<Longrightarrow>
     order_domain_values cw doms var asg = Inr (sort_key (lcv_counter cw doms var) (doms var))"
  by (simp add: order_domain_values_def sort_key_pair comp_def)

text \<open>
  Claim C4, as amended: for a variable of the crossword, \<^verbatim>\<open>order_domain_values\<close>
  returns the words of its current domain in ascending order of the number of
  neighbors, assigned or not, whose current domain holds the word.
\<close>

theorem order_domain_values_sorted:
  assumes "var \<in> set (variables cw)"
  shows "\<exists>vs. order_domain_values cw doms var asg = Inr vs \<and>
     mset vs = mset (doms var) \<and>
     sorted (map (lcv_counter cw doms var) vs)"
  using order_domain_values_sort[OF assms, of doms asg]
  by (simp add: sorted_sort_key)

lemma lcv_simps [simp]:
  "lcv_across \<noteq> lcv_down k" "lcv_down k \<noteq> lcv_across"
  "lcv_down k = lcv_down k' \<longleftrightarrow> k = k'"
  by (simp_all add: lcv_across_def lcv_down_def)

lemma lcv_cw_simps [simp]:
  "variables lcv_cw = [lcv_across, lcv_down 0, lcv_down 1, lcv_down 2]"
  "overlaps lcv_cw = lcv_overlaps"
  by (simp_all add: lcv_cw_def)

lemma lcv_neighbors [simp]:
  "neighbors lcv_cw lcv_across = [lcv_down 0, lcv_down 1, lcv_down 2]"
  by (simp add: neighbors_def lcv_overlaps_def)

lemma lcv_doms_simps [simp]:
  "lcv_doms lcv_across = [''DOG'', ''CAT'']"
  "lcv_doms (lcv_down 0) = [''CAT'', ''DIM'']"
  "lcv_doms (lcv_down (Suc 0)) = [''OAK'', ''DOG'']"
  "lcv_doms (lcv_down 2) = [''GAS'', ''DOG'']"
  by (simp_all add: lcv_doms_def)

text \<open>Claim C4 as amended, on the slot with three crossings.\<close>

theorem order_domain_values_sorted_witness:
  "order_domain_values lcv_cw lcv_doms lcv_across lcv_asg = Inr [''CAT'', ''DOG''] \<and>
   map (lcv_counter lcv_cw lcv_doms lcv_across) [''CAT'', ''DOG''] = [1, 2] \<and>
   sorted (map (lcv_counter lcv_cw lcv_doms lcv_across) [''CAT'', ''DOG''])"
proof -
  have v: "lcv_across \<in> set (variables lcv_cw)" by simp
  have o: "order_domain_values lcv_cw lcv_doms lcv_across lcv_asg = Inr [''CAT'', ''DOG'']"
    by (simp add: order_domain_values_def lcv_counter_def)
  have c: "map (lcv_counter lcv_cw lcv_doms lcv_across) [''CAT'', ''DOG''] = [1, 2]"
    by (simp add: lcv_counter_def)
  from order_domain_values_sorted[OF v, of lcv_doms lcv_asg] o c show ?thesis by auto
qed

text \<open>
  Claim C4 as stated fails there: \<open>DOG\<close> is in the domains of the two assigned
  neighbors only, so its score in the claim's sense is 0 and that of \<open>CAT\<close> is 1, yet
  \<open>CAT\<close> is returned first.
\<close>

theorem order_domain_values_counterexample:
  "order_domain_values lcv_cw lcv_doms lcv_across lcv_asg = Inr [''CAT'', ''DOG''] \<and>
   map (lcv_score_spec lcv_cw lcv_doms lcv_across lcv_asg) [''CAT'', ''DOG''] = [1, 0] \<and>
   \<not> sorted (map (lcv_score_spec lcv_cw lcv_doms lcv_across lcv_asg) [''CAT'', ''DOG''])"
proof -
  have o: "order_domain_values lcv_cw lcv_doms lcv_across lcv_asg = Inr [''CAT'', ''DOG'']"
    by (simp add: order_domain_values_def lcv_counter_def)
  have c: "map (lcv_score_spec lcv_cw lcv_doms lcv_across lcv_asg) [''CAT'', ''DOG''] = [1, 0]"
    by (simp add: lcv_score_spec_def lcv_asg_def)
  from o c show ?thesis by simp
qed

lemma length_base26 [simp]: "length (base26 n k) = n"
  by (induction n arbitrary: k) simp_all

lemma alphabet_nth_eq:
  assumes "i < 26" "j < 26" "alphabet ! i = alphabet ! j"
  shows "i = j"
proof -
  have "distinct alphabet" by (simp add: alphabet_def)
  moreover have "length alphabet = 26" by (simp add: alphabet_def)
  ultimately show ?thesis using assms by (simp add: nth_eq_iff_index_eq)
qed

lemma base26_inj:
  "base26 n k = base26 n k' \<Longrightarrow> k < 26 ^ n \<Longrightarrow> k' < 26 ^ n \<Longrightarrow> k = k'"
proof (induction n arbitrary: k k')
  case 0
  then show ?case by simp
next
  case (Suc n)
  from Suc.prems(1) have h: "alphabet ! (k mod 26) = alphabet ! (k' mod 26)"
    and t: "base26 n (k div 26) = base26 n (k' div 26)" by simp_all
  from h have m: "k mod 26 = k' mod 26" by (intro alphabet_nth_eq) simp_all
  from Suc.prems(2,3) have "k div 26 < 26 ^ n" "k' div 26 < 26 ^ n"
    by (simp_all add: less_mult_imp_div_less mult.commute)
  with t have d: "k div 26 = k' div 26" by (rule Suc.IH)
  from m d show ?case by (metis div_mult_mod_eq)
qed

lemma distinct_big_words: "distinct big_words"
proof -
  have "inj_on (base26 5) {0..<100000}"
  proof (rule inj_onI)
    fix k k' :: nat
    assume "k \<in> {0..<100000}" "k' \<in> {0..<100000}" "base26 5 k = base26 5 k'"
    then show "k = k'" by (intro base26_inj[of 5]) simp_all
  qed
  then show ?thesis by (simp add: big_words_def distinct_map)
qed

lemma length_big_words: "length big_words = 100000"
  by (simp add: big_words_def)

lemma big_words_length: "w \<in> set big_words \<Longrightarrow> length w = 5"
  by (auto simp: big_words_def)

lemma big_words_first: "''AAAAA'' \<in> set big_words"
proof -
  have five: "(5::nat) = Suc (Suc (Suc (Suc (Suc 0))))" by simp
  have "base26 5 0 = ''AAAAA''" by (simp add: five alphabet_def)
  moreover have "base26 5 0 \<in> set big_words" by (simp add: big_words_def)
  ultimately show ?thesis by simp
qed

lemma big_simps [simp]:
  "variables big_cw = [big_var]" "words big_cw = big_words" "overlaps big_cw p = None"
  "var_length big_var = 5" "neighbors big_cw v = []"
  by (simp_all add: big_cw_def big_var_def neighbors_def)

lemma big_doms:
  "enforce_node_consistency big_cw (init_domains big_cw) big_var = big_words"
  by (simp add: enforce_node_consistency_def enforce_var_filter init_domains_def
      filter_id_conv big_words_length)

lemma big_ac3:
  "ac3 big_cw (enforce_node_consistency big_cw (init_domains big_cw)) None
     = Inr (True, enforce_node_consistency big_cw (init_domains big_cw))"
  by (simp add: ac3_def all_arcs_def ac3_loop.simps)

lemma tie_simps [simp]:
  "variables tie_cw = [lcv_down 0, lcv_across, lcv_down 1, lcv_down 2]"
  "overlaps tie_cw = lcv_overlaps"
  by (simp_all add: tie_cw_def lcv_cw_def)

lemma tie_neighbors [simp]:
  "neighbors tie_cw lcv_across = [lcv_down 0, lcv_down 1, lcv_down 2]"
  "neighbors tie_cw (lcv_down 0) = [lcv_across]"
  "neighbors tie_cw (lcv_down (Suc 0)) = [lcv_across]"
  "neighbors tie_cw (lcv_down 2) = [lcv_across]"
  by (simp_all add: neighbors_def lcv_overlaps_def)

text \<open>
  While some unassigned variable has fewer than 99999 words, the selection is the one
  the docstring describes (lemma \<open>select_min\<close>): fewest words first, most neighbors
  among the tied. Here all four slots have two words, the first down slot is visited
  first, and the across slot with its three crossings is returned.
\<close>

lemma select_tie_break:
  "map (\<lambda>v. length (lcv_doms v)) (variables tie_cw) = [2, 2, 2, 2] \<and>
   map (\<lambda>v. length (neighbors tie_cw v)) (variables tie_cw) = [1, 3, 1, 1] \<and>
   select_unassigned_variable tie_cw lcv_doms [] = Inr (Var_of lcv_across)"
  by (simp add: select_unassigned_variable_def)

text \<open>
  Claim C6 on a dictionary of 100000 five-letter words, all different: after node
  consistency the domain of the one slot holds them all. The assignment is empty and
  the slot is unassigned, yet \<^verbatim>\<open>select_unassigned_variable\<close> returns the integer
  placeholder 99999 and not the slot, since no count is below the 99999 the scan
  starts from. \<^verbatim>\<open>backtrack\<close> passes the integer on as a variable and \<^verbatim>\<open>solve\<close> raises
  \<^verbatim>\<open>KeyError\<close>, although giving the slot the word \<open>AAAAA\<close> of its domain is a complete
  and consistent assignment.
\<close>

theorem select_returns_placeholder:
  "distinct (words big_cw) \<and>
   list_all (\<lambda>w. length w = var_length big_var) (words big_cw) \<and>
   enforce_node_consistency big_cw (init_domains big_cw) big_var = words big_cw \<and>
   length (words big_cw) = 100000 \<and>
   big_var \<in> set (variables big_cw) \<and> map_of [] big_var = None \<and>
   select_unassigned_variable big_cw
       (enforce_node_consistency big_cw (init_domains big_cw)) []
     = Inr (Int_of 99999) \<and>
   solve big_cw = Inl KeyError \<and>
   ''AAAAA'' \<in> set (enforce_node_consistency big_cw (init_domains big_cw) big_var) \<and>
   assignment_complete big_cw [(big_var, ''AAAAA'')] \<and>
   consistent big_cw [(big_var, ''AAAAA'')] = Inr True"
proof -
  let ?d = "enforce_node_consistency big_cw (init_domains big_cw)"
  have sel: "select_unassigned_variable big_cw ?d [] = Inr (Int_of 99999)"
    by (simp add: select_unassigned_variable_def big_doms length_big_words)
  have nc: "\<not> assignment_complete big_cw []"
    by (simp add: assignment_complete_def)
  from sel nc have "backtrack big_cw ?d [] = Inl KeyError"
    by (simp add: backtrack.simps)
  then have "solve big_cw = Inl KeyError"
    by (simp add: solve_def solve_trace_def big_ac3)
  moreover have "list_all (\<lambda>w. length w = var_length big_var) (words big_cw)"
    by (simp add: list_all_iff big_words_length)
  moreover have "assignment_complete big_cw [(big_var, ''AAAAA'')]"
    by (simp add: assignment_complete_def)
  moreover have "consistent big_cw [(big_var, ''AAAAA'')] = Inr True"
    by (simp add: consistent_def)
  ultimately show ?thesis
    using sel distinct_big_words big_doms length_big_words big_words_first by simp
qed

subsection \<open>Backtracking search and the entry point\<close>

lemma dict_update_append:
  "map_of asg var = None \<Longrightarrow> dict_update asg var val = asg @ [(var, val)]"
  by (induction asg var val rule: dict_update.induct) (auto split: if_splits)

lemma dict_pop_append:
  "map_of asg var = None \<Longrightarrow> dict_pop (asg @ [(var, val)]) var = Inr asg"
  by (induction asg) (auto split: if_splits)

lemma single_change_add:
  "map_of s var = None \<Longrightarrow> single_change s (s @ [(var, val)])"
  by (simp add: single_change_def)

lemma single_change_remove: "single_change (s @ [e]) s"
  by (simp add: single_change_def)

lemma backtrack_post_both:
  "backtrack cw doms asg = Inr (r, asg', lg) \<Longrightarrow> backtrack_post cw asg r asg' lg"
  "map_of asg var = None \<Longrightarrow> backtrack_values cw doms var vals asg = Inr (r, asg', lg) \<Longrightarrow>
     backtrack_post cw asg r asg' lg \<and> (\<forall>a. r = Some a \<longrightarrow> consistent cw a = Inr True)"
proof (induction cw doms asg and cw doms var vals asg arbitrary: r asg' lg and r asg' lg
    rule: backtrack_backtrack_values.induct)
  case (1 cw doms asg)
  show ?case
  proof (cases "assignment_complete cw asg")
    case True
    with "1.prems" show ?thesis by (auto simp: backtrack.simps backtrack_post_def)
  next
    case False
    with "1.prems" obtain var vals where
      sel: "select_unassigned_variable cw doms asg = Inr (Var_of var)" and
      ord: "order_domain_values cw doms var asg = Inr vals" and
      run: "backtrack_values cw doms var vals asg = Inr (r, asg', lg)"
      by (auto simp: backtrack.simps split: sum.splits candidate.splits)
    from select_Var[OF sel] have "map_of asg var = None" by simp
    from "1.IH"[OF False sel refl ord this run] show ?thesis by simp
  qed
next
  case (2 cw doms var asg)
  then show ?case by (auto simp: backtrack_post_def)
next
  case (3 cw doms var val rest asg)
  let ?asg1 = "dict_update asg var val"
  note un = "3.prems"(1)
  have asg1: "?asg1 = asg @ [(var, val)]" using un by (rule dict_update_append)
  have pop1: "dict_pop ?asg1 var = Inr asg" unfolding asg1 using un by (rule dict_pop_append)
  have add: "single_change asg ?asg1" unfolding asg1 using un by (rule single_change_add)
  have rem: "single_change ?asg1 asg" unfolding asg1 by (rule single_change_remove)
  from "3.prems"(2) obtain ok where ok: "consistent cw ?asg1 = Inr ok"
    by (auto split: sum.splits)
  show ?case
  proof (cases ok)
    case True
    with "3.prems"(2) ok obtain result asg2 log2 where
      bt: "backtrack cw doms ?asg1 = Inr (result, asg2, log2)"
      by (auto split: sum.splits)
    note post = "3.IH"(1)[OF ok True bt]
    from post have chain2: "successively single_change (?asg1 # log2)"
      and last2: "last (?asg1 # log2) = asg2"
      by (simp_all add: backtrack_post_def)
    show ?thesis
    proof (cases result)
      case None
      with post have asg2: "asg2 = ?asg1" by (simp add: backtrack_post_def)
      have f: "\<not> truthy result" using None by (simp add: truthy_def)
      from "3.prems"(2) ok True bt f asg2 pop1 obtain log4 where
        run: "backtrack_values cw doms var rest asg = Inr (r, asg', log4)" and
        lg: "lg = ?asg1 # log2 @ asg # log4"
        by (auto split: sum.splits)
      have pop2: "dict_pop asg2 var = Inr asg" using asg2 pop1 by simp
      from "3.IH"(2)[OF ok True bt refl refl f pop2 un run]
      have post4: "backtrack_post cw asg r asg' log4"
        and cons4: "\<forall>a. r = Some a \<longrightarrow> consistent cw a = Inr True"
        by simp_all
      from post4 have chain4: "successively single_change (asg # log4)"
        and last4: "last (asg # log4) = asg'"
        by (simp_all add: backtrack_post_def)
      have "successively single_change ((asg # ?asg1 # log2) @ (asg # log4))"
        unfolding successively_append_iff
        using add chain2 chain4 rem last2 asg2 by simp
      then have "successively single_change (asg # lg)" using lg by simp
      moreover have "last (asg # lg) = asg'" using lg last4 by simp
      ultimately show ?thesis using post4 cons4 by (simp add: backtrack_post_def)
    next
      case (Some a)
      with post have a: "a = asg2" "\<exists>ext. a = ?asg1 @ ext" "assignment_complete cw a"
        "a = ?asg1 \<or> consistent cw a = Inr True"
        by (auto simp: backtrack_post_def)
      from a(2) asg1 have ne: "a \<noteq> []" by auto
      with Some have t: "truthy result" by (simp add: truthy_def)
      with "3.prems"(2) ok True bt have r: "r = result" "asg' = asg2" "lg = ?asg1 # log2"
        by simp_all
      from a(4) ok True have c: "consistent cw a = Inr True" by auto
      from a(2) asg1 have "\<exists>ext. a = asg @ ext" by auto
      moreover have "successively single_change (asg # lg)" using r(3) add chain2 by simp
      moreover have "last (asg # lg) = asg'" using r(2,3) last2 by simp
      ultimately show ?thesis using r Some a(1,3) c by (simp add: backtrack_post_def)
    qed
  next
    case False
    with "3.prems"(2) ok pop1 obtain log4 where
      run: "backtrack_values cw doms var rest asg = Inr (r, asg', log4)" and
      lg: "lg = ?asg1 # asg # log4"
      by (auto split: sum.splits)
    from "3.IH"(3)[OF ok False pop1 un run]
    have post4: "backtrack_post cw asg r asg' log4"
      and cons4: "\<forall>a. r = Some a \<longrightarrow> consistent cw a = Inr True"
      by simp_all
    from post4 have chain4: "successively single_change (asg # log4)"
      and last4: "last (asg # log4) = asg'"
      by (simp_all add: backtrack_post_def)
    have "successively single_change (asg # lg)" using lg add rem chain4 by simp
    moreover have "last (asg # lg) = asg'" using lg last4 by simp
    ultimately show ?thesis using post4 cons4 by (simp add: backtrack_post_def)
  qed
qed

lemma consistent_neighbors_True:
  "consistent_neighbors cw asg var word ns = Inr True \<Longrightarrow>
     y \<in> set ns \<Longrightarrow> map_of asg y = Some wy \<Longrightarrow>
     \<exists>i j. overlaps cw (var, y) = Some (i, j) \<and> i < length word \<and> j < length wy \<and>
       word ! i = wy ! j"
  by (induction ns) (auto split: option.splits if_splits)

lemma consistent_loop_True:
  "consistent_loop cw asg entries seen = Inr True \<Longrightarrow>
     distinct (map snd entries) \<and>
     (\<forall>(v, w) \<in> set entries. length w = var_length v \<and> w \<notin> set seen \<and>
        consistent_neighbors cw asg v w (neighbors cw v) = Inr True)"
proof (induction entries arbitrary: seen)
  case Nil
  show ?case by simp
next
  case (Cons e entries)
  obtain var word where e: "e = (var, word)" by (cases e)
  from Cons.prems e have
    h: "var_length var = length word" "word \<notin> set seen"
      "consistent_neighbors cw asg var word (neighbors cw var) = Inr True"
      "consistent_loop cw asg entries (seen @ [word]) = Inr True"
    by (auto split: if_splits sum.splits)
  from Cons.IH[OF h(4)] have
    ih: "distinct (map snd entries)"
      "\<forall>(v, w) \<in> set entries. length w = var_length v \<and> w \<notin> set (seen @ [word]) \<and>
        consistent_neighbors cw asg v w (neighbors cw v) = Inr True"
    by simp_all
  from ih(2) have "word \<notin> snd ` set entries" by force
  with ih h e show ?case by auto
qed

lemma consistent_True:
  assumes "consistent cw asg = Inr True"
  shows "distinct (map snd asg)"
    and "map_of asg v = Some w \<Longrightarrow> length w = var_length v"
    and "map_of asg x = Some wx \<Longrightarrow> map_of asg y = Some wy \<Longrightarrow> y \<in> set (variables cw) \<Longrightarrow>
         x \<noteq> y \<Longrightarrow> overlaps cw (x, y) = Some (i, j) \<Longrightarrow>
         i < length wx \<and> j < length wy \<and> wx ! i = wy ! j"
proof -
  note c = consistent_loop_True[OF assms[unfolded consistent_def]]
  from c show "distinct (map snd asg)" by simp
  show "length w = var_length v" if "map_of asg v = Some w"
    using c map_of_SomeD[OF that] by auto
  show "i < length wx \<and> j < length wy \<and> wx ! i = wy ! j"
    if x: "map_of asg x = Some wx" and y: "map_of asg y = Some wy"
      and yv: "y \<in> set (variables cw)" and ne: "x \<noteq> y" and ov: "overlaps cw (x, y) = Some (i, j)"
  proof -
    from c map_of_SomeD[OF x]
    have "consistent_neighbors cw asg x wx (neighbors cw x) = Inr True" by auto
    moreover from yv ne ov have "y \<in> set (neighbors cw x)" by (simp add: set_neighbors)
    ultimately show ?thesis using consistent_neighbors_True y ov by fastforce
  qed
qed

lemma consistent_Nil: "consistent cw [] = Inr True"
  by (simp add: consistent_def)

text \<open>
  Claim C1 (what \<^verbatim>\<open>solve\<close> returns): an assignment returned by \<^verbatim>\<open>solve\<close> gives every
  variable of the crossword a word of the variable's length, gives different variables
  different words, and for every two variables with a recorded overlap the two words
  agree at the overlap positions.
\<close>

theorem solve_returns_solution:
  assumes "solve cw = Inr (Some asg)"
  shows "(\<forall>v \<in> set (variables cw). \<exists>w. map_of asg v = Some w \<and> length w = var_length v) \<and>
     (\<forall>v v' w w'. map_of asg v = Some w \<and> map_of asg v' = Some w' \<and> v \<noteq> v' \<longrightarrow> w \<noteq> w') \<and>
     (\<forall>x \<in> set (variables cw). \<forall>y \<in> set (variables cw). \<forall>i j wx wy.
        x \<noteq> y \<and> overlaps cw (x, y) = Some (i, j) \<and>
        map_of asg x = Some wx \<and> map_of asg y = Some wy \<longrightarrow>
        i < length wx \<and> j < length wy \<and> wx ! i = wy ! j)"
proof -
  from assms obtain ok doms2 asg' lg where
    "backtrack cw doms2 [] = Inr (Some asg, asg', lg)"
    by (auto simp: solve_def solve_trace_def Let_def split: sum.splits prod.splits)
  from backtrack_post_both(1)[OF this] have
    comp: "assignment_complete cw asg" and "asg = [] \<or> consistent cw asg = Inr True"
    by (auto simp: backtrack_post_def)
  then have cons: "consistent cw asg = Inr True" using consistent_Nil by auto
  note c = consistent_True[OF cons]
  have "\<forall>v \<in> set (variables cw). \<exists>w. map_of asg v = Some w \<and> length w = var_length v"
    using comp c(2) by (auto simp: assignment_complete_iff)
  moreover have "w \<noteq> w'"
    if "map_of asg v = Some w" "map_of asg v' = Some w'" "v \<noteq> v'" for v v' w w'
  proof
    assume "w = w'"
    from that(1,2) have "(v, w) \<in> set asg" "(v', w') \<in> set asg" by (auto dest: map_of_SomeD)
    moreover from c(1) have "inj_on snd (set asg)" by (simp add: distinct_map)
    ultimately have "(v, w) = (v', w')" using \<open>w = w'\<close>
      by (intro inj_onD[of snd "set asg"]) simp_all
    with that(3) show False by simp
  qed
  moreover have "i < length wx \<and> j < length wy \<and> wx ! i = wy ! j"
    if "y \<in> set (variables cw)" "x \<noteq> y" "overlaps cw (x, y) = Some (i, j)"
      "map_of asg x = Some wx" "map_of asg y = Some wy" for x y i j wx wy
    using c(3)[OF that(4,5,1,2,3)] .
  ultimately show ?thesis by blast
qed

text \<open>
  Claim C9 (backtracking is atomic on failure): a call of \<^verbatim>\<open>backtrack\<close> that returns
  \<^verbatim>\<open>None\<close> leaves the assignment exactly as it was at the call; a call that succeeds
  returns the final assignment, which extends the one passed in. Throughout the search
  every write to the assignment is a single change of the state before it: one entry
  added at the end for a variable that had none, or the last entry removed; the writes
  start from the assignment passed in and end in the state the call returns. Adding
  the entry of an unassigned variable and popping it gives back the assignment.
\<close>

theorem backtrack_restores_assignment:
  "(backtrack cw doms asg = Inr (None, asg', lg) \<longrightarrow> asg' = asg) \<and>
   (backtrack cw doms asg = Inr (Some a, asg', lg) \<longrightarrow> asg' = a \<and> (\<exists>ext. a = asg @ ext)) \<and>
   (backtrack cw doms asg = Inr (r, asg', lg) \<longrightarrow>
      successively single_change (asg # lg) \<and> last (asg # lg) = asg') \<and>
   (map_of asg var = None \<longrightarrow>
      dict_update asg var val = asg @ [(var, val)] \<and>
      dict_pop (dict_update asg var val) var = Inr asg)"
proof (intro conjI impI)
  assume "backtrack cw doms asg = Inr (None, asg', lg)"
  from backtrack_post_both(1)[OF this] show "asg' = asg" by (simp add: backtrack_post_def)
next
  assume "backtrack cw doms asg = Inr (Some a, asg', lg)"
  from backtrack_post_both(1)[OF this] show "asg' = a" "\<exists>ext. a = asg @ ext"
    by (auto simp: backtrack_post_def)
next
  assume "backtrack cw doms asg = Inr (r, asg', lg)"
  from backtrack_post_both(1)[OF this]
  show "successively single_change (asg # lg)" "last (asg # lg) = asg'"
    by (simp_all add: backtrack_post_def)
next
  assume un: "map_of asg var = None"
  then show "dict_update asg var val = asg @ [(var, val)]" by (rule dict_update_append)
  with un show "dict_pop (dict_update asg var val) var = Inr asg" by (simp add: dict_pop_append)
qed

lemma ac3_False_empty:
  assumes "ac3 cw doms arcs = Inr (False, doms')"
  shows "\<exists>x \<in> set (variables cw). doms' x = []"
proof -
  let ?arcs = "case arcs of None \<Rightarrow> all_arcs cw
               | Some given \<Rightarrow> if given = [] then all_arcs cw else given"
  from assms have run: "ac3_loop cw doms ?arcs = Inr (False, doms')" by (simp add: ac3_def)
  have "\<not> False \<longrightarrow> (\<exists>x \<in> set (variables cw). doms' x = [])"
    by (rule ac3_loop_rule[OF run, where I = "\<lambda>d as. True"
          and P = "\<lambda>b d. \<not> b \<longrightarrow> (\<exists>x \<in> set (variables cw). d x = [])"]) auto
  then show ?thesis by simp
qed

lemma backtrack_empty_domain:
  assumes v: "v \<in> set (variables cw)" and e: "doms v = []"
  shows "\<exists>u. u \<in> set (variables cw) \<and> doms u = [] \<and>
     select_unassigned_variable cw doms [] = Inr (Var_of u) \<and>
     order_domain_values cw doms u [] = Inr [] \<and>
     backtrack cw doms [] = backtrack_values cw doms u [] [] \<and>
     backtrack cw doms [] = Inr (None, [], [])"
proof -
  from v have nc: "\<not> assignment_complete cw []" by (auto simp: assignment_complete_iff)
  from select_min[of v cw "[]" doms] v e obtain u where
    u: "select_unassigned_variable cw doms [] = Inr (Var_of u)" "u \<in> set (variables cw)"
      "\<forall>u' \<in> set (variables cw). map_of [] u' = None \<longrightarrow> length (doms u) \<le> length (doms u')"
    by auto
  from u(3) v e have empty: "doms u = []" by auto
  with u(2) have ord: "order_domain_values cw doms u [] = Inr []"
    by (simp add: order_domain_values_sort)
  with nc u(1) have "backtrack cw doms [] = backtrack_values cw doms u [] []"
    by (simp add: backtrack.simps)
  with u(1,2) empty ord show ?thesis by auto
qed

text \<open>
  Claim C2, as amended: \<^verbatim>\<open>solve\<close> does not look at what \<^verbatim>\<open>ac3\<close> returned. Whenever
  \<^verbatim>\<open>ac3\<close> returns, true or false, \<^verbatim>\<open>backtrack\<close> is called on the pruned domains and
  its result is the result of \<^verbatim>\<open>solve\<close>. When \<^verbatim>\<open>ac3\<close> returned false, or node
  consistency had emptied the domain of a variable, the search selects a variable with
  an empty domain, gets no word to try for it, never writes the assignment and returns
  \<^verbatim>\<open>None\<close>, so \<^verbatim>\<open>solve\<close> reports no solution.
\<close>

theorem solve_empty_domain:
  assumes "ac3 cw (enforce_node_consistency cw (init_domains cw)) None = Inr (ok, doms2)"
  shows "snd (solve_trace cw) = [Call_enforce_node_consistency, Call_ac3, Call_backtrack] \<and>
     solve cw = (case backtrack cw doms2 [] of
                   Inl e \<Rightarrow> Inl e
                 | Inr (result, asg, lg) \<Rightarrow> Inr result) \<and>
     (\<not> ok \<or> (\<exists>v \<in> set (variables cw). enforce_node_consistency cw (init_domains cw) v = [])
        \<longrightarrow>
        (\<exists>v. v \<in> set (variables cw) \<and> doms2 v = [] \<and>
             select_unassigned_variable cw doms2 [] = Inr (Var_of v) \<and>
             order_domain_values cw doms2 v [] = Inr [] \<and>
             backtrack cw doms2 [] = backtrack_values cw doms2 v [] []) \<and>
        backtrack cw doms2 [] = Inr (None, [], []) \<and>
        solve_trace cw = (Inr None, [Call_enforce_node_consistency, Call_ac3, Call_backtrack]))"
proof (intro conjI impI)
  show "snd (solve_trace cw) = [Call_enforce_node_consistency, Call_ac3, Call_backtrack]"
    using assms by (simp add: solve_trace_def split: sum.splits prod.splits)
  show "solve cw = (case backtrack cw doms2 [] of
                   Inl e \<Rightarrow> Inl e
                 | Inr (result, asg, lg) \<Rightarrow> Inr result)"
    using assms by (simp add: solve_def solve_trace_def split: sum.splits prod.splits)
next
  assume h: "\<not> ok \<or>
    (\<exists>v \<in> set (variables cw). enforce_node_consistency cw (init_domains cw) v = [])"
  have "\<exists>v \<in> set (variables cw). doms2 v = []"
  proof (cases ok)
    case False
    with assms show ?thesis by (auto dest: ac3_False_empty)
  next
    case True
    with h obtain v where
      v: "v \<in> set (variables cw)" "enforce_node_consistency cw (init_domains cw) v = []"
      by auto
    from ac3_subset[OF assms, of v] v(2) have "doms2 v = []" by simp
    with v(1) show ?thesis by blast
  qed
  then obtain v where v: "v \<in> set (variables cw)" "doms2 v = []" by blast
  from backtrack_empty_domain[of v cw doms2, OF v] obtain u where
    u: "u \<in> set (variables cw)" "doms2 u = []"
      "select_unassigned_variable cw doms2 [] = Inr (Var_of u)"
      "order_domain_values cw doms2 u [] = Inr []"
      "backtrack cw doms2 [] = backtrack_values cw doms2 u [] []"
      "backtrack cw doms2 [] = Inr (None, [], [])"
    by blast
  from u(1-5) show "\<exists>v. v \<in> set (variables cw) \<and> doms2 v = [] \<and>
             select_unassigned_variable cw doms2 [] = Inr (Var_of v) \<and>
             order_domain_values cw doms2 v [] = Inr [] \<and>
             backtrack cw doms2 [] = backtrack_values cw doms2 v [] []"
    by blast
  show "backtrack cw doms2 [] = Inr (None, [], [])" by (rule u(6))
  with assms
  show "solve_trace cw = (Inr None, [Call_enforce_node_consistency, Call_ac3, Call_backtrack])"
    by (simp add: solve_trace_def)
qed

lemma ex_ac3:
  "ac3 ex_cw ex_doms None = Inr (True, ex_doms(ex_down := [''TIP''], ex_across := [''CAT'']))"
  by (simp add: ac3_def all_arcs_def ac3_loop.simps revise_def ex_overlaps_def)

lemma ex_solve:
  "solve ex_cw = Inr (Some [(ex_across, ''CAT''), (ex_down, ''TIP'')])"
  by (simp add: solve_def solve_trace_def ex_doms_def[symmetric] ex_ac3 backtrack.simps
      assignment_complete_def select_unassigned_variable_def order_domain_values_def
      lcv_counter_def consistent_def ex_overlaps_def truthy_def)

text \<open>Claim C1 at the crossing of two slots of length 3.\<close>

theorem solve_returns_solution_witness:
  "solve ex_cw = Inr (Some [(ex_across, ''CAT''), (ex_down, ''TIP'')]) \<and>
   overlaps ex_cw (ex_across, ex_down) = Some (2, 0) \<and>
   (2::nat) < length ''CAT'' \<and> (0::nat) < length ''TIP'' \<and> ''CAT'' ! 2 = ''TIP'' ! 0"
proof -
  let ?asg = "[(ex_across, ''CAT''), (ex_down, ''TIP'')]"
  have ov: "overlaps ex_cw (ex_across, ex_down) = Some (2, 0)" by (simp add: ex_overlaps_def)
  from solve_returns_solution[OF ex_solve]
  have "\<forall>x \<in> set (variables ex_cw). \<forall>y \<in> set (variables ex_cw). \<forall>i j wx wy.
        x \<noteq> y \<and> overlaps ex_cw (x, y) = Some (i, j) \<and>
        map_of ?asg x = Some wx \<and> map_of ?asg y = Some wy \<longrightarrow>
        i < length wx \<and> j < length wy \<and> wx ! i = wy ! j"
    by blast
  then have "overlaps ex_cw (ex_across, ex_down) = Some (2, 0) \<longrightarrow>
      (2::nat) < length ''CAT'' \<and> (0::nat) < length ''TIP'' \<and> ''CAT'' ! 2 = ''TIP'' ! 0"
    by (simp del: nth_Cons_numeral)
  with ov ex_solve show ?thesis by blast
qed

lemma ex2_backtrack:
  "backtrack ex_cw2 ex_doms2 [] =
     Inr (None, [],
          [[(ex_across, ''CAT'')],
           [(ex_across, ''CAT''), (ex_down, ''CAT'')],
           [(ex_across, ''CAT'')],
           [(ex_across, ''CAT''), (ex_down, ''DOG'')],
           [(ex_across, ''CAT'')],
           [],
           [(ex_across, ''DOG'')],
           [(ex_across, ''DOG''), (ex_down, ''CAT'')],
           [(ex_across, ''DOG'')],
           [(ex_across, ''DOG''), (ex_down, ''DOG'')],
           [(ex_across, ''DOG'')],
           []])"
  by (simp add: backtrack.simps assignment_complete_def select_unassigned_variable_def
      order_domain_values_def lcv_counter_def consistent_def ex_overlaps_def truthy_def)

lemma ex_backtrack:
  "backtrack ex_cw ex_doms [] =
     Inr (Some [(ex_across, ''CAT''), (ex_down, ''TIP'')],
          [(ex_across, ''CAT''), (ex_down, ''TIP'')],
          [[(ex_across, ''CAT'')],
           [(ex_across, ''CAT''), (ex_down, ''CAT'')],
           [(ex_across, ''CAT'')],
           [(ex_across, ''CAT''), (ex_down, ''DOG'')],
           [(ex_across, ''CAT'')],
           [(ex_across, ''CAT''), (ex_down, ''TIP'')]])"
  by (simp add: backtrack.simps assignment_complete_def select_unassigned_variable_def
      order_domain_values_def lcv_counter_def consistent_def ex_overlaps_def truthy_def)

text \<open>
  Claim C9 on two searches from the empty assignment that descend two levels: one
  over the dictionary in which no two words fit the crossing, which fails after
  twelve writes, and one that succeeds after six.
\<close>

theorem backtrack_restores_assignment_witness:
  "backtrack ex_cw2 ex_doms2 [] =
     Inr (None, [],
          [[(ex_across, ''CAT'')],
           [(ex_across, ''CAT''), (ex_down, ''CAT'')],
           [(ex_across, ''CAT'')],
           [(ex_across, ''CAT''), (ex_down, ''DOG'')],
           [(ex_across, ''CAT'')],
           [],
           [(ex_across, ''DOG'')],
           [(ex_across, ''DOG''), (ex_down, ''CAT'')],
           [(ex_across, ''DOG'')],
           [(ex_across, ''DOG''), (ex_down, ''DOG'')],
           [(ex_across, ''DOG'')],
           []]) \<and>
   successively single_change
     [[],
      [(ex_across, ''CAT'')],
      [(ex_across, ''CAT''), (ex_down, ''CAT'')],
      [(ex_across, ''CAT'')],
      [(ex_across, ''CAT''), (ex_down, ''DOG'')],
      [(ex_across, ''CAT'')],
      [],
      [(ex_across, ''DOG'')],
      [(ex_across, ''DOG''), (ex_down, ''CAT'')],
      [(ex_across, ''DOG'')],
      [(ex_across, ''DOG''), (ex_down, ''DOG'')],
      [(ex_across, ''DOG'')],
      []] \<and>
   backtrack ex_cw ex_doms [] =
     Inr (Some [(ex_across, ''CAT''), (ex_down, ''TIP'')],
          [(ex_across, ''CAT''), (ex_down, ''TIP'')],
          [[(ex_across, ''CAT'')],
           [(ex_across, ''CAT''), (ex_down, ''CAT'')],
           [(ex_across, ''CAT'')],
           [(ex_across, ''CAT''), (ex_down, ''DOG'')],
           [(ex_across, ''CAT'')],
           [(ex_across, ''CAT''), (ex_down, ''TIP'')]]) \<and>
   successively single_change
     [[],
      [(ex_across, ''CAT'')],
      [(ex_across, ''CAT''), (ex_down, ''CAT'')],
      [(ex_across, ''CAT'')],
      [(ex_across, ''CAT''), (ex_down, ''DOG'')],
      [(ex_across, ''CAT'')],
      [(ex_across, ''CAT''), (ex_down, ''TIP'')]] \<and>
   map_of [(ex_across, ''CAT'')] ex_down = None \<and>
   dict_update [(ex_across, ''CAT'')] ex_down ''DOG''
     = [(ex_across, ''CAT''), (ex_down, ''DOG'')] \<and>
   dict_pop (dict_update [(ex_across, ''CAT'')] ex_down ''DOG'') ex_down
     = Inr [(ex_across, ''CAT'')]"
proof -
  have un: "map_of [(ex_across, ''CAT'')] ex_down = None" by simp
  note fails = backtrack_restores_assignment[where cw = ex_cw2 and doms = ex_doms2
      and asg = "[]" and asg' = "[]" and r = None]
  note succeeds = backtrack_restores_assignment[where cw = ex_cw and doms = ex_doms
      and asg = "[]" and asg' = "[(ex_across, ''CAT''), (ex_down, ''TIP'')]"
      and r = "Some [(ex_across, ''CAT''), (ex_down, ''TIP'')]"]
  note writes = backtrack_restores_assignment[where asg = "[(ex_across, ''CAT'')]"
      and var = ex_down and val = "''DOG''"]
  from fails ex2_backtrack un have 1: "successively single_change
     [[],
      [(ex_across, ''CAT'')],
      [(ex_across, ''CAT''), (ex_down, ''CAT'')],
      [(ex_across, ''CAT'')],
      [(ex_across, ''CAT''), (ex_down, ''DOG'')],
      [(ex_across, ''CAT'')],
      [],
      [(ex_across, ''DOG'')],
      [(ex_across, ''DOG''), (ex_down, ''CAT'')],
      [(ex_across, ''DOG'')],
      [(ex_across, ''DOG''), (ex_down, ''DOG'')],
      [(ex_across, ''DOG'')],
      []]"
    by blast
  from succeeds ex_backtrack have 2: "successively single_change
     [[],
      [(ex_across, ''CAT'')],
      [(ex_across, ''CAT''), (ex_down, ''CAT'')],
      [(ex_across, ''CAT'')],
      [(ex_across, ''CAT''), (ex_down, ''DOG'')],
      [(ex_across, ''CAT'')],
      [(ex_across, ''CAT''), (ex_down, ''TIP'')]]"
    by blast
  have 3: "dict_update [(ex_across, ''CAT'')] ex_down ''DOG''
       = [(ex_across, ''CAT''), (ex_down, ''DOG'')] \<and>
     dict_pop (dict_update [(ex_across, ''CAT'')] ex_down ''DOG'') ex_down
       = Inr [(ex_across, ''CAT'')]"
    using writes[THEN conjunct2, THEN conjunct2, THEN conjunct2, rule_format, OF un] by simp
  from 1 2 3 un ex2_backtrack ex_backtrack show ?thesis by blast
qed

lemma ex2_ac3:
  "ac3 ex_cw2 ex_doms2 None = Inr (False, ex_doms2(ex_down := []))"
  by (simp add: ac3_def all_arcs_def ac3_loop.simps revise_def ex_overlaps_def)

lemma iso_simps [simp]:
  "variables iso_cw = [iso_var]" "words iso_cw = [''CAT'', ''DOG'']"
  "overlaps iso_cw p = None" "var_length iso_var = 4" "neighbors iso_cw v = []"
  by (simp_all add: iso_cw_def iso_var_def neighbors_def)

lemma iso_doms:
  "enforce_node_consistency iso_cw (init_domains iso_cw) iso_var = []"
  by (simp add: enforce_node_consistency_def enforce_var_filter init_domains_def)

lemma iso_ac3:
  "ac3 iso_cw (enforce_node_consistency iso_cw (init_domains iso_cw)) None
     = Inr (True, enforce_node_consistency iso_cw (init_domains iso_cw))"
  by (simp add: ac3_def all_arcs_def ac3_loop.simps)

text \<open>Claim C2 as amended, where AC-3 fails and on the isolated slot.\<close>

theorem solve_empty_domain_witness:
  "ac3 ex_cw2 (enforce_node_consistency ex_cw2 (init_domains ex_cw2)) None
     = Inr (False, ex_doms2(ex_down := [])) \<and>
   select_unassigned_variable ex_cw2 (ex_doms2(ex_down := [])) [] = Inr (Var_of ex_down) \<and>
   order_domain_values ex_cw2 (ex_doms2(ex_down := [])) ex_down [] = Inr [] \<and>
   backtrack ex_cw2 (ex_doms2(ex_down := [])) [] = Inr (None, [], []) \<and>
   solve_trace ex_cw2 = (Inr None, [Call_enforce_node_consistency, Call_ac3, Call_backtrack]) \<and>
   ac3 iso_cw (enforce_node_consistency iso_cw (init_domains iso_cw)) None
     = Inr (True, enforce_node_consistency iso_cw (init_domains iso_cw)) \<and>
   enforce_node_consistency iso_cw (init_domains iso_cw) iso_var = [] \<and>
   solve_trace iso_cw = (Inr None, [Call_enforce_node_consistency, Call_ac3, Call_backtrack])"
proof -
  have a: "ac3 ex_cw2 (enforce_node_consistency ex_cw2 (init_domains ex_cw2)) None
     = Inr (False, ex_doms2(ex_down := []))"
    using ex2_ac3 by (simp add: ex_doms2_def)
  have s: "select_unassigned_variable ex_cw2 (ex_doms2(ex_down := [])) [] = Inr (Var_of ex_down)"
    by (simp add: select_unassigned_variable_def)
  from solve_empty_domain[OF a] obtain v where
    v: "select_unassigned_variable ex_cw2 (ex_doms2(ex_down := [])) [] = Inr (Var_of v)"
      "order_domain_values ex_cw2 (ex_doms2(ex_down := [])) v [] = Inr []"
    and b: "backtrack ex_cw2 (ex_doms2(ex_down := [])) [] = Inr (None, [], [])"
    and t: "solve_trace ex_cw2
      = (Inr None, [Call_enforce_node_consistency, Call_ac3, Call_backtrack])"
    by auto
  from v(1) s have "v = ex_down" by simp
  with v(2) have o: "order_domain_values ex_cw2 (ex_doms2(ex_down := [])) ex_down [] = Inr []"
    by simp
  have "\<exists>v \<in> set (variables iso_cw). enforce_node_consistency iso_cw (init_domains iso_cw) v = []"
    using iso_doms by simp
  with solve_empty_domain[OF iso_ac3]
  have "solve_trace iso_cw = (Inr None, [Call_enforce_node_consistency, Call_ac3, Call_backtrack])"
    by blast
  with a s o b t iso_ac3 iso_doms show ?thesis by blast
qed

text \<open>
  Claim C2 as stated fails: where \<^verbatim>\<open>ac3\<close> returns false the search is called all the
  same, and on the isolated slot whose domain node consistency empties, \<^verbatim>\<open>ac3\<close>
  returns true and it is the search that reports no solution.
\<close>

theorem solve_always_searches_counterexample:
  "ac3 ex_cw2 (enforce_node_consistency ex_cw2 (init_domains ex_cw2)) None
     = Inr (False, ex_doms2(ex_down := [])) \<and>
   Call_backtrack \<in> set (snd (solve_trace ex_cw2)) \<and>
   enforce_node_consistency iso_cw (init_domains iso_cw) iso_var = [] \<and>
   ac3 iso_cw (enforce_node_consistency iso_cw (init_domains iso_cw)) None
     = Inr (True, enforce_node_consistency iso_cw (init_domains iso_cw)) \<and>
   Call_backtrack \<in> set (snd (solve_trace iso_cw))"
proof -
  have a: "ac3 ex_cw2 (enforce_node_consistency ex_cw2 (init_domains ex_cw2)) None
     = Inr (False, ex_doms2(ex_down := []))"
    using ex2_ac3 by (simp add: ex_doms2_def)
  have "backtrack ex_cw2 (ex_doms2(ex_down := [])) [] = Inr (None, [], [])"
    using backtrack_empty_domain[of ex_down ex_cw2 "ex_doms2(ex_down := [])"] by auto
  with a have 1: "Call_backtrack \<in> set (snd (solve_trace ex_cw2))"
    by (simp add: solve_trace_def)
  have "backtrack iso_cw (enforce_node_consistency iso_cw (init_domains iso_cw)) []
      = Inr (None, [], [])"
    using backtrack_empty_domain[of iso_var iso_cw
        "enforce_node_consistency iso_cw (init_domains iso_cw)"] iso_doms
    by auto
  with iso_ac3 have 2: "Call_backtrack \<in> set (snd (solve_trace iso_cw))"
    by (simp add: solve_trace_def)
  from a 1 2 iso_doms iso_ac3 show ?thesis by simp
qed

end
